theory Spec2Isabelle
  imports
    Main
    "HOL-Library.Word"
    "HOL-Library.Multiset"
    "HOL-Library.Char_ord"
    "HOL-Library.List_Lexorder"
    "HOL-Library.Signed_Division"
begin

unbundle bit_operations_syntax

section \<open>Change streamer: events and routing\<close>

text \<open>
  Go's runtime panics that the modelled functions can raise.
\<close>

datatype panic =
    SliceBoundsOutOfRange
  | IntegerDivideByZero
  | NilPointerDereference
  | IndexOutOfRange

text \<open>
  \<^verbatim>\<open>tgtdb.Event\<close>, as the streamer uses it: \<^verbatim>\<open>Vsn int64\<close>, \<^verbatim>\<open>Op\<close>, \<^verbatim>\<open>SchemaName\<close>,
  \<^verbatim>\<open>TableName\<close> and \<^verbatim>\<open>Key map[string]*string\<close> (\<^verbatim>\<open>hashEvent\<close> dereferences the values).
  The table name field is called \<open>EventTableName\<close> here, since \<open>TableName\<close> is the field
  of \<^verbatim>\<open>ImportFileTask\<close>. A Go map is an association list with distinct keys; the order of
  the list is the order in which \<^verbatim>\<open>range\<close> happens to visit the entries, and \<open>None\<close> is
  the nil pointer.
\<close>

record Event =
  Vsn :: int
  Op :: string
  SchemaName :: string
  EventTableName :: string
  Key :: "(string \<times> string option) list"
  Fields :: "(string \<times> string option) list"

text \<open>
  What travels through an event channel: a pointer to an event read from the segment, or
  the pointer \<^verbatim>\<open>END_OF_QUEUE_SEGMENT_EVENT\<close>, which the worker recognises by pointer
  equality.
\<close>

datatype msg = EventMsg Event | END_OF_QUEUE_SEGMENT_EVENT

text \<open>
  The process-wide settings and the collaborators in other packages that the
  streamer calls: \<^verbatim>\<open>valueConverter.ConvertEvent\<close> (returns an error or the event as it
  left it), \<^verbatim>\<open>tdb.ExecuteBatch\<close> (\<open>True\<close> when the \<open>k\<close>-th call of a worker succeeds)
  and \<^verbatim>\<open>metaDB.MarkEventQueueSegmentAsProcessed\<close> (\<open>True\<close> on success).
\<close>

record Globals =
  NUM_EVENT_CHANNELS :: int
  MAX_EVENTS_PER_BATCH :: int
  TargetDBType :: string
  sourceDBType :: string
  ConvertEvent :: "Event \<Rightarrow> string \<Rightarrow> bool \<Rightarrow> string + Event"
  ExecuteBatch :: "nat \<Rightarrow> Event list \<Rightarrow> bool"
  MarkEventQueueSegmentAsProcessed_ok :: "int \<Rightarrow> bool"

text \<open>
  Modelled from the spec: the target database type constants \<^verbatim>\<open>YUGABYTEDB\<close> and
  \<^verbatim>\<open>ORACLE\<close> are declared in another file of package cmd; section 4.2 names the two variants.
\<close>

definition YUGABYTEDB :: string where
  "YUGABYTEDB = ''yugabytedb''"

definition ORACLE :: string where
  "ORACLE = ''oracle''"

subsection \<open>hashEvent\<close>

text \<open>
  \<^verbatim>\<open>hash/fnv\<close>'s \<^verbatim>\<open>New64a\<close>: the state starts at the offset basis, and \<^verbatim>\<open>Write\<close> folds
  every byte in with \<^verbatim>\<open>hash ^= byte; hash *= prime64\<close> on \<^verbatim>\<open>uint64\<close>.
\<close>

definition offset64 :: "64 word" where
  "offset64 = 14695981039346656037"

definition prime64 :: "64 word" where
  "prime64 = 1099511628211"

fun fnv64a_Write :: "64 word \<Rightarrow> string \<Rightarrow> 64 word" where
  "fnv64a_Write hash [] = hash"
| "fnv64a_Write hash (c # cs) = fnv64a_Write ((hash XOR word_of_nat (of_char c)) * prime64) cs"

text \<open>
  \<^verbatim>\<open>for _, k := range keyColumns { hash.Write([]byte(*e.Key[k])) }\<close>: a key that is
  absent reads as the nil pointer, and dereferencing nil panics.
\<close>

fun hashEvent_keys ::
  "(string \<times> string option) list \<Rightarrow> 64 word \<Rightarrow> string list \<Rightarrow> panic + 64 word" where
  "hashEvent_keys key hash [] = Inr hash"
| "hashEvent_keys key hash (k # ks) =
     (case map_of key k of
        Some (Some v) \<Rightarrow> hashEvent_keys key (fnv64a_Write hash v) ks
      | _ \<Rightarrow> Inl NilPointerDereference)"

text \<open>
  \<^verbatim>\<open>hashEvent\<close>. \<^verbatim>\<open>sort.Strings\<close> orders strings bytewise, which is the lexicographic
  order on \<open>string\<close>. \<^verbatim>\<open>uint64(NUM_EVENT_CHANNELS)\<close> keeps the bits of the \<^verbatim>\<open>int\<close>, the
  remainder by zero panics, and \<^verbatim>\<open>int(...)\<close> reads the 64 bits as a signed value.
\<close>

definition hashEvent :: "int \<Rightarrow> Event \<Rightarrow> panic + int" where
  "hashEvent num_event_channels e =
     (let hash = fnv64a_Write offset64 (SchemaName e @ EventTableName e);
          keyColumns = map fst (Key e)
      in case hashEvent_keys (Key e) hash (sort keyColumns) of
           Inl p \<Rightarrow> Inl p
         | Inr hash' \<Rightarrow>
             if (word_of_int num_event_channels :: 64 word) = 0 then Inl IntegerDivideByZero
             else Inr (sint (hash' mod word_of_int num_event_channels)))"

subsection \<open>handleEvent\<close>

definition shouldFormatValues :: "('a Globals_scheme) \<Rightarrow> Event \<Rightarrow> bool" where
  "shouldFormatValues g event \<longleftrightarrow>
     (TargetDBType g = YUGABYTEDB \<and> Op event = ''u'') \<or> TargetDBType g = ORACLE"

text \<open>
  What the segment-reading goroutine does, in program order. A channel operation is
  recorded when it completes.
\<close>

datatype action =
    SegmentOpen
  | SegmentClose
  | GoProcessEvents nat int
  | NextEventCall
  | ConvertEventCall Event string bool
  | ChanSend nat msg
  | DoneRecv nat
  | MarkEventQueueSegmentAsProcessed int

datatype outcome =
    Completed
  | ReturnedError string
  | Panicked panic
  | Waiting

text \<open>
  \<^verbatim>\<open>handleEvent(event, evChans)\<close> for a non-nil event; \<open>len_evChans\<close> is \<^verbatim>\<open>len(evChans)\<close>.
  The event sent is the one \<^verbatim>\<open>ConvertEvent\<close> left behind, and it is hashed after the
  conversion.
\<close>

definition handleEvent :: "('a Globals_scheme) \<Rightarrow> Event \<Rightarrow> nat \<Rightarrow> action list \<times> outcome" where
  "handleEvent g event len_evChans =
     (let tableName =
            (if sourceDBType g = ''postgresql'' \<and> SchemaName event \<noteq> ''public''
             then SchemaName event @ ''.'' @ EventTableName event
             else EventTableName event);
          call = ConvertEventCall event tableName (shouldFormatValues g event)
      in case ConvertEvent g event tableName (shouldFormatValues g event) of
           Inl err \<Rightarrow> ([call], ReturnedError (''error transforming event key fields: '' @ err))
         | Inr event' \<Rightarrow>
             (case hashEvent (NUM_EVENT_CHANNELS g) event' of
                Inl p \<Rightarrow> ([call], Panicked p)
              | Inr h \<Rightarrow>
                  if 0 \<le> h \<and> h < int len_evChans
                  then ([call, ChanSend (nat h) (EventMsg event')], Completed)
                  else ([call], Panicked IndexOutOfRange)))"

section \<open>Change streamer: the channel worker processEvents\<close>

text \<open>
  One completed \<^verbatim>\<open>select\<close> of the worker: a receive from \<^verbatim>\<open>evChan\<close> or the batch timer
  firing. A run of the worker is driven by the list of these, in the order they happen.
\<close>

datatype select_case = Recv msg | TimerFired

text \<open>
  The inner loop \<^verbatim>\<open>Batching: for { select { ... } }\<close>. It leaves with the batch, the flag
  \<^verbatim>\<open>endOfProcessing\<close> and the inputs not yet consumed, or it is still blocked in
  \<^verbatim>\<open>select\<close> when the inputs end.
\<close>

datatype batching_result =
    BatchingBreak "Event list" bool "select_case list"
  | BatchingBlocked "Event list"

fun batching :: "int \<Rightarrow> int \<Rightarrow> Event list \<Rightarrow> select_case list \<Rightarrow> batching_result" where
  "batching max_events lastAppliedVsn batch [] = BatchingBlocked batch"
| "batching max_events lastAppliedVsn batch (TimerFired # rest) =
     BatchingBreak batch False rest"
| "batching max_events lastAppliedVsn batch (Recv END_OF_QUEUE_SEGMENT_EVENT # rest) =
     BatchingBreak batch True rest"
| "batching max_events lastAppliedVsn batch (Recv (EventMsg event) # rest) =
     (if Vsn event \<le> lastAppliedVsn then batching max_events lastAppliedVsn batch rest
      else if max_events \<le> int (length (batch @ [event]))
      then BatchingBreak (batch @ [event]) False rest
      else batching max_events lastAppliedVsn (batch @ [event]) rest)"

datatype worker_status = DoneSent | BlockedInSelect | ErrExit

text \<open>
  Where a run of the worker stands when it stops: the value of its variable
  \<^verbatim>\<open>lastAppliedVsn\<close>, the events appended to a batch that was not yet passed to
  \<^verbatim>\<open>tdb.ExecuteBatch\<close>, the batches passed to \<^verbatim>\<open>tdb.ExecuteBatch\<close> in order (the last one
  failed when the status is \<open>ErrExit\<close>), and the inputs it did not consume.
\<close>

record worker_result =
  w_lastAppliedVsn :: int
  w_pending :: "Event list"
  w_executeBatchCalls :: "Event list list"
  w_status :: worker_status
  w_rest :: "select_case list"

lemma batching_rest_shorter:
  "batching max_events lastAppliedVsn batch inputs = BatchingBreak batch' eop rest \<Longrightarrow>
   length rest < length inputs"
  by (induction max_events lastAppliedVsn batch inputs rule: batching.induct)
     (auto split: if_splits)

text \<open>
  The outer loop \<^verbatim>\<open>for !endOfProcessing { ... }\<close> followed by \<^verbatim>\<open>done <- true\<close>.
  \<open>calls\<close> are the batches executed so far. \<^verbatim>\<open>lastAppliedVsn\<close> is a parameter of
  \<^verbatim>\<open>processEvents\<close> that no statement assigns.
\<close>

function processEvents_loop ::
  "('a Globals_scheme) \<Rightarrow> int \<Rightarrow> Event list list \<Rightarrow> select_case list \<Rightarrow> worker_result" where
  "processEvents_loop g lastAppliedVsn calls inputs =
     (case batching (MAX_EVENTS_PER_BATCH g) lastAppliedVsn [] inputs of
        BatchingBlocked batch \<Rightarrow>
          \<lparr>w_lastAppliedVsn = lastAppliedVsn, w_pending = batch, w_executeBatchCalls = calls,
           w_status = BlockedInSelect, w_rest = []\<rparr>
      | BatchingBreak batch endOfProcessing rest \<Rightarrow>
          if length batch = 0 then
            (if endOfProcessing
             then \<lparr>w_lastAppliedVsn = lastAppliedVsn, w_pending = [], w_executeBatchCalls = calls,
                   w_status = DoneSent, w_rest = rest\<rparr>
             else processEvents_loop g lastAppliedVsn calls rest)
          else if \<not> ExecuteBatch g (length calls) batch then
            \<lparr>w_lastAppliedVsn = lastAppliedVsn, w_pending = [],
             w_executeBatchCalls = calls @ [batch], w_status = ErrExit, w_rest = rest\<rparr>
          else if endOfProcessing
          then \<lparr>w_lastAppliedVsn = lastAppliedVsn, w_pending = [],
                w_executeBatchCalls = calls @ [batch], w_status = DoneSent, w_rest = rest\<rparr>
          else processEvents_loop g lastAppliedVsn (calls @ [batch]) rest)"
  by pat_completeness auto
termination
  by (relation "measure (\<lambda>(g, lastAppliedVsn, calls, inputs). length inputs)")
     (auto dest: batching_rest_shorter)

declare processEvents_loop.simps [simp del]

definition processEvents ::
  "('a Globals_scheme) \<Rightarrow> int \<Rightarrow> select_case list \<Rightarrow> worker_result" where
  "processEvents g lastAppliedVsn inputs = processEvents_loop g lastAppliedVsn [] inputs"

text \<open>The events among a list of select outcomes, the sentinel left out.\<close>

fun events_of :: "select_case list \<Rightarrow> Event list" where
  "events_of [] = []"
| "events_of (Recv (EventMsg event) # cs) = event # events_of cs"
| "events_of (c # cs) = events_of cs"

section \<open>Change streamer: streamChangesFromSegment\<close>

text \<open>
  \<^verbatim>\<open>EventQueueSegment\<close> is declared in another file; the model holds what
  \<^verbatim>\<open>streamChangesFromSegment\<close> observes of it: the segment number, the error of
  \<^verbatim>\<open>Open\<close> if any, whether \<^verbatim>\<open>IsProcessed()\<close> holds before the first read, and the
  results of the successive calls of \<^verbatim>\<open>NextEvent\<close>. \<open>NextEventResult ev processed\<close> is a
  call that returned the event \<open>ev\<close> (\<open>None\<close> is nil) with no error and after which
  \<^verbatim>\<open>IsProcessed()\<close> is \<open>processed\<close>.
\<close>

datatype next_event =
    NextEventError string
  | NextEventResult "Event option" bool

record EventQueueSegment =
  SegmentNum :: int
  Open_error :: "string option"
  IsProcessed_on_entry :: bool
  NextEvent_results :: "next_event list"

text \<open>
  Sequencing of two stretches of the goroutine: the second runs only when the first ran
  to its end.
\<close>

definition and_then ::
  "action list \<times> outcome \<Rightarrow> action list \<times> outcome \<Rightarrow> action list \<times> outcome" where
  "and_then r k = (if snd r = Completed then (fst r @ fst k, snd k) else r)"

text \<open>
  \<^verbatim>\<open>for i := 0; i < NUM_EVENT_CHANNELS; i++ { ...; go processEvents(i, evChans[i],
  chanLastAppliedVsn, processingDoneChans[i], statsReporter) }\<close>, over the indices still to
  visit. \<open>meta\<close> is \<^verbatim>\<open>eventChannelsMetaInfo\<close> reduced to its \<^verbatim>\<open>LastAppliedVsn\<close>.
\<close>

fun start_processors ::
  "(int \<Rightarrow> int option) \<Rightarrow> nat \<Rightarrow> nat \<Rightarrow> nat list \<Rightarrow> action list \<times> outcome" where
  "start_processors meta len_evChans len_doneChans [] = ([], Completed)"
| "start_processors meta len_evChans len_doneChans (i # is) =
     (case meta (int i) of
        None \<Rightarrow> ([], ReturnedError ''unable to find channel meta info for channel'')
      | Some chanLastAppliedVsn \<Rightarrow>
          if len_evChans \<le> i \<or> len_doneChans \<le> i then ([], Panicked IndexOutOfRange)
          else and_then ([GoProcessEvents i chanLastAppliedVsn], Completed)
                 (start_processors meta len_evChans len_doneChans is))"

text \<open>
  \<^verbatim>\<open>for !segment.IsProcessed() { event, err := segment.NextEvent(); ... }\<close>, entered with
  \<^verbatim>\<open>IsProcessed()\<close> false. A nil event with the segment not processed reaches
  \<^verbatim>\<open>handleEvent\<close>, whose first field access panics. When the recorded results end, the
  goroutine is inside \<^verbatim>\<open>NextEvent\<close>.
\<close>

fun read_events ::
  "('a Globals_scheme) \<Rightarrow> nat \<Rightarrow> next_event list \<Rightarrow> action list \<times> outcome" where
  "read_events g len_evChans [] = ([], Waiting)"
| "read_events g len_evChans (NextEventError err # rs) = ([NextEventCall], ReturnedError err)"
| "read_events g len_evChans (NextEventResult None processed # rs) =
     (if processed then ([NextEventCall], Completed)
      else ([NextEventCall], Panicked NilPointerDereference))"
| "read_events g len_evChans (NextEventResult (Some event) processed # rs) =
     (case handleEvent g event len_evChans of
        (tr, Completed) \<Rightarrow>
          if processed then (NextEventCall # tr, Completed)
          else and_then (NextEventCall # tr, Completed) (read_events g len_evChans rs)
      | (tr, ReturnedError err) \<Rightarrow>
          (NextEventCall # tr, ReturnedError (''error handling event: '' @ err))
      | (tr, oc) \<Rightarrow> (NextEventCall # tr, oc))"

text \<open>\<^verbatim>\<open>for i := 0; i < NUM_EVENT_CHANNELS; i++ { evChans[i] <- END_OF_QUEUE_SEGMENT_EVENT }\<close>\<close>

fun send_end_of_segment :: "nat \<Rightarrow> nat list \<Rightarrow> action list \<times> outcome" where
  "send_end_of_segment len_evChans [] = ([], Completed)"
| "send_end_of_segment len_evChans (i # is) =
     (if len_evChans \<le> i then ([], Panicked IndexOutOfRange)
      else and_then ([ChanSend i END_OF_QUEUE_SEGMENT_EVENT], Completed)
             (send_end_of_segment len_evChans is))"

text \<open>\<^verbatim>\<open>for i := 0; i < NUM_EVENT_CHANNELS; i++ { <-processingDoneChans[i] }\<close>\<close>

fun wait_for_done :: "nat \<Rightarrow> nat list \<Rightarrow> action list \<times> outcome" where
  "wait_for_done len_doneChans [] = ([], Completed)"
| "wait_for_done len_doneChans (i # is) =
     (if len_doneChans \<le> i then ([], Panicked IndexOutOfRange)
      else and_then ([DoneRecv i], Completed) (wait_for_done len_doneChans is))"

definition mark_processed :: "('a Globals_scheme) \<Rightarrow> int \<Rightarrow> action list \<times> outcome" where
  "mark_processed g segmentNum =
     ([MarkEventQueueSegmentAsProcessed segmentNum],
      if MarkEventQueueSegmentAsProcessed_ok g segmentNum then Completed
      else ReturnedError ''error marking segment as processed'')"

text \<open>\<^verbatim>\<open>defer segment.Close()\<close> runs when the function returns or panics.\<close>

definition with_deferred_close :: "action list \<times> outcome \<Rightarrow> action list \<times> outcome" where
  "with_deferred_close r = (if snd r = Waiting then r else (fst r @ [SegmentClose], snd r))"

text \<open>
  \<^verbatim>\<open>streamChangesFromSegment\<close>: the actions of the goroutine in program order, and how it
  ends when every channel operation completes. Any prefix of the list is what has
  happened at some moment of the run, for instance while a send or a receive blocks.
\<close>

definition streamChangesFromSegment ::
  "('a Globals_scheme) \<Rightarrow> EventQueueSegment \<Rightarrow> nat \<Rightarrow> nat \<Rightarrow> (int \<Rightarrow> int option) \<Rightarrow>
   action list \<times> outcome" where
  "streamChangesFromSegment g segment len_evChans len_doneChans eventChannelsMetaInfo =
     (case Open_error segment of
        Some err \<Rightarrow> ([SegmentOpen], ReturnedError err)
      | None \<Rightarrow>
          with_deferred_close
            (and_then ([SegmentOpen], Completed)
            (and_then (start_processors eventChannelsMetaInfo len_evChans len_doneChans
                         [0..<nat (NUM_EVENT_CHANNELS g)])
            (and_then (if IsProcessed_on_entry segment then ([], Completed)
                       else read_events g len_evChans (NextEvent_results segment))
            (and_then (send_end_of_segment len_evChans [0..<nat (NUM_EVENT_CHANNELS g)])
            (and_then (wait_for_done len_doneChans [0..<nat (NUM_EVENT_CHANNELS g)])
                      (mark_processed g (SegmentNum segment))))))))"

section \<open>Progress reporter (src/reporter/stats/streamImportReporter.go)\<close>

text \<open>
  Go's \<^verbatim>\<open>int64\<close> is modelled as \<open>int\<close> with the two's-complement wrap-around written
  out: \<open>wrap64\<close> maps any integer to its representative in \<open>[-2^63, 2^63)\<close>.
  Go's \<^verbatim>\<open>/\<close> on integers truncates towards zero, which is \<open>sdiv\<close>.
\<close>

definition wrap64 :: "int \<Rightarrow> int" where
  "wrap64 x = (x + 2 ^ 63) mod 2 ^ 64 - 2 ^ 63"

text \<open>
  The fields of \<^verbatim>\<open>StreamImportStatsReporter\<close> that the window functions read or write.
  \<^verbatim>\<open>eventsSlidingWindow\<close> is the array \<^verbatim>\<open>[61]int64\<close>: a list whose length is 61.
\<close>

record StreamImportStatsReporter =
  totalEventsImported :: int
  CurrImportedEvents :: int
  eventsSlidingWindow :: "int list"
  remainingEvents :: int

text \<open>
  \<^verbatim>\<open>for i := len(w) - 1; i > 0; i-- { w[i] = w[i-1] }\<close>: the loop counter runs
  downwards, so the recursion is on the counter.
\<close>

fun slideWindow_loop :: "nat \<Rightarrow> int list \<Rightarrow> int list" where
  "slideWindow_loop 0 w = w"
| "slideWindow_loop (Suc i) w = slideWindow_loop i (w[Suc i := w ! i])"

definition slideWindow :: "StreamImportStatsReporter \<Rightarrow> StreamImportStatsReporter" where
  "slideWindow s =
     (let w = slideWindow_loop (length (eventsSlidingWindow s) - 1) (eventsSlidingWindow s)
      in s\<lparr>eventsSlidingWindow := w[0 := 0]\<rparr>)"

text \<open>\<^verbatim>\<open>lo.Sum\<close>: \<^verbatim>\<open>var sum T = 0; for _, v := range collection { sum += v }\<close> on \<^verbatim>\<open>int64\<close>.\<close>

definition lo_Sum :: "int list \<Rightarrow> int" where
  "lo_Sum collection = foldl (\<lambda>sum v. wrap64 (sum + v)) 0 collection"

text \<open>
  \<^verbatim>\<open>windowSize := 6*n + 1;  return lo.Sum(s.eventsSlidingWindow[1:windowSize]) / n\<close>.
  The slice expression panics unless \<open>1 \<le> windowSize \<le> len\<close>; the division panics when
  \<open>n = 0\<close>.
\<close>

definition getIngestionRateForLastNMinutes :: "StreamImportStatsReporter \<Rightarrow> int \<Rightarrow> panic + int" where
  "getIngestionRateForLastNMinutes s n =
     (let windowSize = wrap64 (6 * n + 1) in
      if windowSize < 1 \<or> int (length (eventsSlidingWindow s)) < windowSize
      then Inl SliceBoundsOutOfRange
      else
        let sum = lo_Sum (take (nat windowSize - 1) (drop 1 (eventsSlidingWindow s))) in
        if n = 0 then Inl IntegerDivideByZero
        else Inr (wrap64 (sum sdiv n)))"

section \<open>Snapshot importer: classifyTasks (cmd/importData.go)\<close>

text \<open>
  \<^verbatim>\<open>type ImportFileTask struct { ID int; FilePath string; TableName string }\<close>
\<close>

record ImportFileTask =
  ID :: int
  FilePath :: string
  TableName :: string

text \<open>
  The file-import state returned by \<^verbatim>\<open>state.GetFileImportState\<close>. The three named
  constants are the cases of the \<^verbatim>\<open>switch\<close> in \<^verbatim>\<open>classifyTasks\<close>; any other value
  reaches its \<^verbatim>\<open>default\<close> branch.
\<close>

datatype FileImportState =
    FILE_IMPORT_NOT_STARTED
  | FILE_IMPORT_IN_PROGRESS
  | FILE_IMPORT_COMPLETED
  | FILE_IMPORT_STATE_OTHER string

datatype classify_error =
    GetTableImportStateError string
  | InvalidTableImportState FileImportState

text \<open>
  The loop body of \<^verbatim>\<open>classifyTasks\<close>, threaded through the three slices it appends to
  (\<^verbatim>\<open>inProgressTasks\<close>, \<^verbatim>\<open>notStartedTasks\<close>, \<^verbatim>\<open>completedTasks\<close>).
  \<^verbatim>\<open>getState\<close> stands for \<^verbatim>\<open>state.GetFileImportState(task.FilePath, task.TableName)\<close>;
  \<^verbatim>\<open>Inl msg\<close> is its error return.
\<close>

fun classifyTasks_loop ::
  "(string \<Rightarrow> string \<Rightarrow> string + FileImportState) \<Rightarrow> ImportFileTask list \<Rightarrow>
   ImportFileTask list \<Rightarrow> ImportFileTask list \<Rightarrow> ImportFileTask list \<Rightarrow>
   classify_error + (ImportFileTask list \<times> ImportFileTask list \<times> ImportFileTask list)"
where
  "classifyTasks_loop getState [] inProgressTasks notStartedTasks completedTasks =
     Inr (inProgressTasks, notStartedTasks, completedTasks)"
| "classifyTasks_loop getState (task # tasks) inProgressTasks notStartedTasks completedTasks =
     (case getState (FilePath task) (TableName task) of
        Inl err \<Rightarrow> Inl (GetTableImportStateError err)
      | Inr FILE_IMPORT_COMPLETED \<Rightarrow>
          classifyTasks_loop getState tasks inProgressTasks notStartedTasks (completedTasks @ [task])
      | Inr FILE_IMPORT_IN_PROGRESS \<Rightarrow>
          classifyTasks_loop getState tasks (inProgressTasks @ [task]) notStartedTasks completedTasks
      | Inr FILE_IMPORT_NOT_STARTED \<Rightarrow>
          classifyTasks_loop getState tasks inProgressTasks (notStartedTasks @ [task]) completedTasks
      | Inr other \<Rightarrow> Inl (InvalidTableImportState other))"

text \<open>
  \<^verbatim>\<open>classifyTasks\<close> returns \<^verbatim>\<open>(append(inProgressTasks, notStartedTasks...), completedTasks, nil)\<close>,
  or \<^verbatim>\<open>(nil, nil, err)\<close> from inside the loop.
\<close>

definition classifyTasks ::
  "(string \<Rightarrow> string \<Rightarrow> string + FileImportState) \<Rightarrow> ImportFileTask list \<Rightarrow>
   classify_error + (ImportFileTask list \<times> ImportFileTask list)"
where
  "classifyTasks getState tasks =
     (case classifyTasks_loop getState tasks [] [] [] of
        Inl err \<Rightarrow> Inl err
      | Inr (inProgressTasks, notStartedTasks, completedTasks) \<Rightarrow>
          Inr (inProgressTasks @ notStartedTasks, completedTasks))"

text \<open>The file-import state of a task, when the state store answers without error.\<close>

definition task_state_is ::
  "(string \<Rightarrow> string \<Rightarrow> string + FileImportState) \<Rightarrow> FileImportState \<Rightarrow> ImportFileTask \<Rightarrow> bool"
where
  "task_state_is getState s task \<longleftrightarrow> getState (FilePath task) (TableName task) = Inr s"

section \<open>Snapshot importer: importBatch (cmd/importData.go)\<close>

text \<open>
  What \<^verbatim>\<open>importBatch\<close> does to its collaborators, in order: the calls of
  \<^verbatim>\<open>batch.MarkPending\<close>, \<^verbatim>\<open>tdb.ImportBatch\<close> (with the attempt number), \<^verbatim>\<open>time.Sleep\<close>
  (with the seconds), \<^verbatim>\<open>batch.MarkDone\<close> and \<^verbatim>\<open>utils.ErrExit\<close>, which ends the process.
\<close>

datatype ib_action =
    MarkPendingCall
  | ImportBatchCall nat
  | SleepSeconds int
  | MarkDoneCall
  | UtilsErrExit

text \<open>
  The constants \<^verbatim>\<open>COPY_MAX_RETRY_COUNT\<close> and \<^verbatim>\<open>MAX_SLEEP_SECOND\<close> are declared in
  another file and are parameters here, with the answers of the collaborators:
  whether \<^verbatim>\<open>MarkPending\<close> and \<^verbatim>\<open>MarkDone\<close> return an error, the error (if any) of the
  \<open>k\<close>-th call of \<^verbatim>\<open>tdb.ImportBatch\<close>, and the adapter's
  \<^verbatim>\<open>IsNonRetryableCopyError\<close>.
\<close>

record ImportBatchEnv =
  COPY_MAX_RETRY_COUNT :: int
  MAX_SLEEP_SECOND :: int
  MarkPending_error :: bool
  tdb_ImportBatch :: "nat \<Rightarrow> string option"
  IsNonRetryableCopyError :: "string \<Rightarrow> bool"
  MarkDone_error :: bool

text \<open>
  \<^verbatim>\<open>for attempt := 0; attempt < COPY_MAX_RETRY_COUNT; attempt++ { ... }\<close>, from the given
  \<^verbatim>\<open>attempt\<close>, \<^verbatim>\<open>sleepIntervalSec\<close> and \<^verbatim>\<open>err\<close>; it returns the actions and the value of
  \<^verbatim>\<open>err\<close> after the loop.
\<close>

function importBatch_loop ::
  "ImportBatchEnv \<Rightarrow> nat \<Rightarrow> int \<Rightarrow> string option \<Rightarrow> ib_action list \<times> string option" where
  "importBatch_loop env attempt sleepIntervalSec err =
     (if int attempt < COPY_MAX_RETRY_COUNT env then
        (case tdb_ImportBatch env attempt of
           None \<Rightarrow> ([ImportBatchCall attempt], None)
         | Some e \<Rightarrow>
             if IsNonRetryableCopyError env e then ([ImportBatchCall attempt], Some e)
             else
               (ImportBatchCall attempt
                  # SleepSeconds (if MAX_SLEEP_SECOND env < sleepIntervalSec + 10
                                  then MAX_SLEEP_SECOND env else sleepIntervalSec + 10)
                  # fst (importBatch_loop env (Suc attempt)
                           (if MAX_SLEEP_SECOND env < sleepIntervalSec + 10
                            then MAX_SLEEP_SECOND env else sleepIntervalSec + 10) (Some e)),
                snd (importBatch_loop env (Suc attempt)
                       (if MAX_SLEEP_SECOND env < sleepIntervalSec + 10
                        then MAX_SLEEP_SECOND env else sleepIntervalSec + 10) (Some e))))
      else ([], err))"
  by pat_completeness auto
termination
  by (relation "measure (\<lambda>(env, attempt, sleepIntervalSec, err).
        nat (COPY_MAX_RETRY_COUNT env) - attempt)") auto

declare importBatch_loop.simps [simp del]

definition importBatch :: "ImportBatchEnv \<Rightarrow> ib_action list" where
  "importBatch env =
     (if MarkPending_error env then [MarkPendingCall, UtilsErrExit]
      else
        MarkPendingCall # fst (importBatch_loop env 0 0 None)
          @ (case snd (importBatch_loop env 0 0 None) of
               Some e \<Rightarrow> [UtilsErrExit]
             | None \<Rightarrow> if MarkDone_error env then [MarkDoneCall, UtilsErrExit] else [MarkDoneCall]))"

text \<open>An attempt that failed with an error the adapter classifies as retryable.\<close>

definition retryable_failure :: "ImportBatchEnv \<Rightarrow> nat \<Rightarrow> bool" where
  "retryable_failure env attempt =
     (case tdb_ImportBatch env attempt of
        None \<Rightarrow> False
      | Some e \<Rightarrow> \<not> IsNonRetryableCopyError env e)"

text \<open>The attempt numbers of the \<^verbatim>\<open>tdb.ImportBatch\<close> calls of a trace, and its sleeps.\<close>

fun attempts_of :: "ib_action list \<Rightarrow> nat list" where
  "attempts_of [] = []"
| "attempts_of (ImportBatchCall k # as) = k # attempts_of as"
| "attempts_of (a # as) = attempts_of as"

fun sleeps_of :: "ib_action list \<Rightarrow> int list" where
  "sleeps_of [] = []"
| "sleeps_of (SleepSeconds s # as) = s # sleeps_of as"
| "sleeps_of (a # as) = sleeps_of as"

text \<open>
  The two actions of attempt \<open>i\<close> when it fails with a retryable error, in a loop that
  started at attempt \<open>a\<close> with \<^verbatim>\<open>sleepIntervalSec = s\<close>: the call, and the sleep of
  \<open>s + 10 (i - a + 1)\<close> seconds capped at \<^verbatim>\<open>MAX_SLEEP_SECOND\<close>.
\<close>

definition retry_round :: "ImportBatchEnv \<Rightarrow> nat \<Rightarrow> int \<Rightarrow> nat \<Rightarrow> ib_action list" where
  "retry_round env a s i =
     [ImportBatchCall i, SleepSeconds (min (s + 10 * (int i - int a + 1)) (MAX_SLEEP_SECOND env))]"

section \<open>Snapshot importer: splitFilesForTable (cmd/importData.go)\<close>

text \<open>
  The error that \<^verbatim>\<open>dataFile.NextLine\<close> returns with a line: \<^verbatim>\<open>io.EOF\<close> or another
  error.
\<close>

datatype read_err = EOF | ReadError string

text \<open>
  The data file as \<^verbatim>\<open>splitFilesForTable\<close> reads it once \<^verbatim>\<open>SkipLines(lastOffset)\<close> is
  done: the calls of \<^verbatim>\<open>NextLine\<close> that return a line and no error, each with the amount
  by which \<^verbatim>\<open>GetBytesRead()\<close> grows, and then the one call that returns an error, with
  the line it returns beside it (\<^verbatim>\<open>io.EOF\<close> with a non-empty line is a last line that has
  no trailing newline).
\<close>

record DataFile =
  bytes_after_skip :: int
  lines_read :: "(string \<times> int) list"
  final_line :: string
  final_err :: read_err
  final_bytes :: int

text \<open>
  The settings and the collaborators in other packages: \<^verbatim>\<open>batchSize\<close>,
  \<^verbatim>\<open>tdb.MaxBatchSizeInBytes()\<close>, the header (empty unless the descriptor has one), whether
  the file format is CSV, \<^verbatim>\<open>valueConverter.ConvertRow\<close> on the table at hand, the value of
  \<^verbatim>\<open>batchWriter.NumRecordsWritten\<close> after the given records were passed to
  \<^verbatim>\<open>WriteRecord\<close>, and which file operations fail (each failure ends in
  \<^verbatim>\<open>utils.ErrExit\<close>).
\<close>

record SplitEnv =
  batchSize :: int
  MaxBatchSizeInBytes :: int
  file_header :: string
  FileFormat_is_CSV :: bool
  ConvertRow :: "string \<Rightarrow> string + string"
  NumRecordsWritten_after :: "string list \<Rightarrow> int"
  Open_DataFile_error :: bool
  BatchWriter_Init_error :: "int \<Rightarrow> bool"
  WriteHeader_error :: "int \<Rightarrow> bool"
  WriteRecord_error :: "int \<Rightarrow> string \<Rightarrow> bool"
  Done_error :: "int \<Rightarrow> bool"

record BatchWriter =
  bw_batchNumber :: int
  bw_header :: "string option"
  bw_records :: "string list"

text \<open>
  A batch as \<^verbatim>\<open>batchWriter.Done(isLastBatch, offsetEnd, bytesRead)\<close> hands it to
  \<^verbatim>\<open>submitBatch\<close>: the arguments of \<^verbatim>\<open>Done\<close> and what the writer was given.
\<close>

record SubmittedBatch =
  sb_Number :: int
  sb_isLastBatch :: bool
  sb_OffsetEnd :: int
  sb_ByteCount :: int
  sb_header :: "string option"
  sb_records :: "string list"

record split_state =
  s_batchNum :: int
  s_numLinesTaken :: int
  s_batchWriter :: "BatchWriter option"
  s_bytesRead :: int
  s_submitted :: "SubmittedBatch list"

datatype split_exit =
    ExitOpenDataFile
  | ExitInitBatchWriter
  | ExitWriteHeader
  | ExitConvertRow string
  | ExitWriteRecord
  | ExitReadLine string
  | ExitDone

text \<open>
  \<^verbatim>\<open>if batchWriter == nil { batchWriter = state.NewBatchWriter(filePath, t, batchNum);
  Init(); if header != "" && FileFormat == CSV { WriteHeader(header) } }\<close>
\<close>

definition new_batch_writer :: "SplitEnv \<Rightarrow> int \<Rightarrow> split_exit + BatchWriter" where
  "new_batch_writer env batchNum =
     (if BatchWriter_Init_error env batchNum then Inl ExitInitBatchWriter
      else if file_header env \<noteq> '''' \<and> FileFormat_is_CSV env then
        (if WriteHeader_error env batchNum then Inl ExitWriteHeader
         else Inr \<lparr>bw_batchNumber = batchNum, bw_header = Some (file_header env), bw_records = []\<rparr>)
      else Inr \<lparr>bw_batchNumber = batchNum, bw_header = None, bw_records = []\<rparr>)"

text \<open>
  One iteration of \<^verbatim>\<open>for readLineErr == nil { ... }\<close>, given what \<^verbatim>\<open>NextLine\<close> returns in
  it: the line, the error and the growth of \<^verbatim>\<open>GetBytesRead()\<close>.
\<close>

definition split_iteration ::
  "SplitEnv \<Rightarrow> split_state \<Rightarrow> string \<Rightarrow> read_err option \<Rightarrow> int \<Rightarrow> split_exit + split_state" where
  "split_iteration env st line readLineErr nbytes =
     (case (case s_batchWriter st of
              Some w \<Rightarrow> Inr w
            | None \<Rightarrow> new_batch_writer env (s_batchNum st)) of
        Inl e \<Rightarrow> Inl e
      | Inr batchWriter \<Rightarrow>
          let bytesRead = s_bytesRead st + nbytes;
              numLinesTaken =
                (if readLineErr = None \<or> (readLineErr = Some EOF \<and> line \<noteq> '''')
                 then s_numLinesTaken st + 1 else s_numLinesTaken st)
          in case (if line \<noteq> '''' then ConvertRow env line else Inr line) of
               Inl err \<Rightarrow> Inl (ExitConvertRow err)
             | Inr line' \<Rightarrow>
                 if WriteRecord_error env (bw_batchNumber batchWriter) line' then Inl ExitWriteRecord
                 else
                   let records = bw_records batchWriter @ [line'] in
                   if NumRecordsWritten_after env records = batchSize env
                      \<or> MaxBatchSizeInBytes env \<le> bytesRead
                      \<or> readLineErr \<noteq> None
                   then
                     (case readLineErr of
                        Some (ReadError msg) \<Rightarrow> Inl (ExitReadLine msg)
                      | _ \<Rightarrow>
                          if Done_error env (bw_batchNumber batchWriter) then Inl ExitDone
                          else Inr
                            \<lparr>s_batchNum = (if readLineErr = Some EOF then s_batchNum st
                                           else s_batchNum st + 1),
                             s_numLinesTaken = numLinesTaken,
                             s_batchWriter = None,
                             s_bytesRead = 0,
                             s_submitted = s_submitted st @
                               [\<lparr>sb_Number = bw_batchNumber batchWriter,
                                 sb_isLastBatch = (readLineErr = Some EOF),
                                 sb_OffsetEnd = numLinesTaken,
                                 sb_ByteCount = bytesRead,
                                 sb_header = bw_header batchWriter,
                                 sb_records = records\<rparr>]\<rparr>)
                   else Inr
                     \<lparr>s_batchNum = s_batchNum st,
                      s_numLinesTaken = numLinesTaken,
                      s_batchWriter = Some (batchWriter\<lparr>bw_records := records\<rparr>),
                      s_bytesRead = bytesRead,
                      s_submitted = s_submitted st\<rparr>)"

text \<open>The loop: the iterations on the lines read without error, then the last one.\<close>

fun split_loop ::
  "SplitEnv \<Rightarrow> split_state \<Rightarrow> (string \<times> int) list \<Rightarrow> string \<Rightarrow> read_err \<Rightarrow> int \<Rightarrow>
   split_exit + split_state" where
  "split_loop env st [] fline ferr fbytes = split_iteration env st fline (Some ferr) fbytes"
| "split_loop env st ((line, nbytes) # rest) fline ferr fbytes =
     (case split_iteration env st line None nbytes of
        Inl e \<Rightarrow> Inl e
      | Inr st' \<Rightarrow> split_loop env st' rest fline ferr fbytes)"

text \<open>
  \<^verbatim>\<open>splitFilesForTable(state, filePath, t, lastBatchNumber, lastOffset, ...)\<close>: the state
  when the loop ends, with the batches submitted in order, or the \<^verbatim>\<open>utils.ErrExit\<close>
  taken.
\<close>

definition splitFilesForTable ::
  "SplitEnv \<Rightarrow> DataFile \<Rightarrow> int \<Rightarrow> int \<Rightarrow> split_exit + split_state" where
  "splitFilesForTable env dataFile lastBatchNumber lastOffset =
     (if Open_DataFile_error env then Inl ExitOpenDataFile
      else split_loop env
             \<lparr>s_batchNum = lastBatchNumber + 1, s_numLinesTaken = lastOffset,
              s_batchWriter = None, s_bytesRead = bytes_after_skip dataFile, s_submitted = []\<rparr>
             (lines_read dataFile) (final_line dataFile) (final_err dataFile)
             (final_bytes dataFile))"

text \<open>No file operation fails and every line converts.\<close>

definition no_split_errors :: "SplitEnv \<Rightarrow> bool" where
  "no_split_errors env \<longleftrightarrow>
     \<not> Open_DataFile_error env
     \<and> (\<forall>n. \<not> BatchWriter_Init_error env n \<and> \<not> WriteHeader_error env n \<and> \<not> Done_error env n)
     \<and> (\<forall>n l. \<not> WriteRecord_error env n l)
     \<and> (\<forall>l. \<exists>c. ConvertRow env l = Inr c)"

section \<open>Theorems\<close>

subsection \<open>Routing hash and event handling\<close>

lemma fnv64a_Write_append:
  "fnv64a_Write hash (xs @ ys) = fnv64a_Write (fnv64a_Write hash xs) ys"
  by (induction xs arbitrary: hash) simp_all

lemma hashEvent_keys_map_of:
  "map_of key1 = map_of key2 \<Longrightarrow> hashEvent_keys key1 hash ks = hashEvent_keys key2 hash ks"
  by (induction ks arbitrary: hash) (simp_all split: option.splits)

lemma hashEvent_keys_closed_form:
  "\<forall>k \<in> set ks. \<exists>v. map_of key k = Some (Some v) \<Longrightarrow>
   hashEvent_keys key hash ks
     = Inr (fnv64a_Write hash (concat (map (\<lambda>k. the (the (map_of key k))) ks)))"
proof (induction ks arbitrary: hash)
  case Nil
  show ?case by simp
next
  case (Cons k ks)
  then obtain v where v: "map_of key k = Some (Some v)" by auto
  from Cons have "hashEvent_keys key (fnv64a_Write hash v) ks
      = Inr (fnv64a_Write (fnv64a_Write hash v) (concat (map (\<lambda>k. the (the (map_of key k))) ks)))"
    by simp
  with v show ?case by (simp add: fnv64a_Write_append)
qed

lemma hashEvent_keys_panic:
  "hashEvent_keys key hash ks = Inl p \<Longrightarrow> p = NilPointerDereference"
  by (induction ks arbitrary: hash) (auto split: option.splits)

lemma sort_key_columns_unique:
  fixes key1 key2 :: "(string \<times> string option) list"
  assumes "distinct (map fst key1)" "distinct (map fst key2)" "map_of key1 = map_of key2"
  shows "sort (map fst key1) = sort (map fst key2)"
proof -
  have "set (map fst key1) = dom (map_of key1)" by (simp add: dom_map_of_conv_image_fst)
  also have "\<dots> = dom (map_of key2)" by (simp add: assms(3))
  also have "\<dots> = set (map fst key2)" by (simp add: dom_map_of_conv_image_fst)
  finally have "set (sort (map fst key1)) = set (sort (map fst key2))" by simp
  moreover have "distinct (sort (map fst key1))" "distinct (sort (map fst key2))"
    using assms(1,2) by simp_all
  moreover have "sorted (sort (map fst key1))" "sorted (sort (map fst key2))"
    by simp_all
  ultimately show ?thesis by (intro sorted_distinct_set_unique)
qed

lemma key_values_present:
  assumes "\<forall>(k, v) \<in> set key. v \<noteq> None"
  shows "\<forall>k \<in> set (sort (map fst key)). \<exists>v. map_of key k = Some (Some v)"
proof
  fix k assume "k \<in> set (sort (map fst key))"
  then have "k \<in> fst ` set key" by simp
  then obtain v where v: "map_of key k = Some v"
    by (metis domD dom_map_of_conv_image_fst)
  then have "(k, v) \<in> set key" by (rule map_of_SomeD)
  with assms have "v \<noteq> None" by auto
  with v show "\<exists>v. map_of key k = Some (Some v)" by auto
qed

lemma uint64_mod_in_range:
  fixes hash :: "64 word"
  assumes "0 < n" "n < 2 ^ 63"
  shows "0 \<le> sint (hash mod word_of_int n) \<and> sint (hash mod word_of_int n) < n"
proof -
  let ?w = "word_of_int n :: 64 word"
  have un: "uint ?w = n"
    using assms by (simp add: uint_word_of_int_eq take_bit_int_eq_self)
  have "uint (hash mod ?w) = uint hash mod uint ?w" by (rule uint_mod)
  with un have m: "uint (hash mod ?w) = uint hash mod n" by simp
  have lo: "0 \<le> uint hash mod n" and hi: "uint hash mod n < n"
    using assms(1) by simp_all
  from hi assms(2) have hi63: "uint hash mod n < 2 ^ 63" by linarith
  have "sint (hash mod ?w) = signed_take_bit 63 (uint (hash mod ?w))"
    by (simp add: sint_uint)
  also have "\<dots> = uint hash mod n"
    unfolding m using lo hi63 by (intro signed_take_bit_int_eq_self) simp_all
  finally show ?thesis using lo hi by simp
qed

lemma word_of_int_channels_nonzero:
  assumes "0 < n" "n < 2 ^ 63"
  shows "(word_of_int n :: 64 word) \<noteq> 0"
proof -
  have "uint (word_of_int n :: 64 word) = n"
    using assms by (simp add: uint_word_of_int_eq take_bit_int_eq_self)
  with assms(1) show ?thesis by auto
qed

text \<open>
  Claim C2. Two events with the same schema name, the same table name and key maps that
  hold the same column-to-value mapping get the same \<^verbatim>\<open>hashEvent\<close>, whatever the order
  in which the entries of either key map are visited: the hash is FNV-64a over schema name,
  table name and the key values taken in the sorted order of their column names.
\<close>

theorem hashEvent_routing_stable:
  assumes "SchemaName e1 = SchemaName e2" and "EventTableName e1 = EventTableName e2"
    and "distinct (map fst (Key e1))" and "distinct (map fst (Key e2))"
    and "map_of (Key e1) = map_of (Key e2)"
  shows "hashEvent n e1 = hashEvent n e2
       \<and> ((\<forall>(k, v) \<in> set (Key e1). v \<noteq> None) \<and> (word_of_int n :: 64 word) \<noteq> 0 \<longrightarrow>
            hashEvent n e1 =
              Inr (sint (fnv64a_Write offset64
                     (SchemaName e1 @ EventTableName e1
                        @ concat (map (\<lambda>k. the (the (map_of (Key e1) k))) (sort (map fst (Key e1)))))
                   mod word_of_int n)))"
proof -
  have s: "sort (map fst (Key e1)) = sort (map fst (Key e2))"
    using assms(3-5) by (rule sort_key_columns_unique)
  have "hashEvent_keys (Key e1) hash ks = hashEvent_keys (Key e2) hash ks" for hash ks
    using assms(5) by (rule hashEvent_keys_map_of)
  with s assms(1,2) have eq: "hashEvent n e1 = hashEvent n e2"
    by (simp add: hashEvent_def Let_def)
  have closed: "hashEvent n e1 =
      Inr (sint (fnv64a_Write offset64
             (SchemaName e1 @ EventTableName e1
                @ concat (map (\<lambda>k. the (the (map_of (Key e1) k))) (sort (map fst (Key e1)))))
           mod word_of_int n))"
    if nn: "\<forall>(k, v) \<in> set (Key e1). v \<noteq> None" and nz: "(word_of_int n :: 64 word) \<noteq> 0"
  proof -
    from key_values_present [OF nn]
    have "hashEvent_keys (Key e1) hash (sort (map fst (Key e1)))
        = Inr (fnv64a_Write hash
            (concat (map (\<lambda>k. the (the (map_of (Key e1) k))) (sort (map fst (Key e1))))))" for hash
      by (rule hashEvent_keys_closed_form)
    with nz show ?thesis
      by (simp add: hashEvent_def Let_def fnv64a_Write_append)
  qed
  from eq closed show ?thesis by blast
qed

text \<open>
  Claim C3, as amended. With \<^verbatim>\<open>NUM_EVENT_CHANNELS\<close> a positive \<^verbatim>\<open>int\<close>, every value that
  \<^verbatim>\<open>hashEvent\<close> returns lies in \<open>[0, NUM_EVENT_CHANNELS)\<close>; it returns for every event
  whose key values are all non-nil, and its only panic is the nil dereference of a key
  value, raised before any channel is indexed. So \<^verbatim>\<open>handleEvent\<close> never indexes the
  \<^verbatim>\<open>NUM_EVENT_CHANNELS\<close>-element channel slice out of bounds.
\<close>

theorem hashEvent_in_range:
  assumes "0 < n" and "n < 2 ^ 63"
  shows "(\<forall>h. hashEvent n e = Inr h \<longrightarrow> 0 \<le> h \<and> h < n)
       \<and> ((\<forall>(k, v) \<in> set (Key e). v \<noteq> None) \<longrightarrow> (\<exists>h. hashEvent n e = Inr h \<and> 0 \<le> h \<and> h < n))
       \<and> (\<forall>p. hashEvent n e = Inl p \<longrightarrow> p = NilPointerDereference)
       \<and> (\<forall>g. NUM_EVENT_CHANNELS g = n \<longrightarrow>
              snd (handleEvent (g :: Globals) e (nat n)) \<noteq> Panicked IndexOutOfRange)"
proof -
  have nz: "(word_of_int n :: 64 word) \<noteq> 0"
    using assms by (rule word_of_int_channels_nonzero)
  have range: "0 \<le> h \<and> h < n" if "hashEvent n e' = Inr h" for h e'
    using that nz uint64_mod_in_range [OF assms]
    by (auto simp: hashEvent_def Let_def split: sum.splits)
  have total: "\<exists>h. hashEvent n e = Inr h \<and> 0 \<le> h \<and> h < n"
    if nn: "\<forall>(k, v) \<in> set (Key e). v \<noteq> None"
  proof -
    from hashEvent_keys_closed_form [OF key_values_present [OF nn]]
    obtain hash' where "hashEvent_keys (Key e)
        (fnv64a_Write offset64 (SchemaName e @ EventTableName e)) (sort (map fst (Key e))) = Inr hash'"
      by blast
    with nz have "hashEvent n e = Inr (sint (hash' mod word_of_int n))"
      by (simp add: hashEvent_def Let_def)
    with range show ?thesis by blast
  qed
  have pan: "p = NilPointerDereference" if "hashEvent n e = Inl p" for p
    using that nz hashEvent_keys_panic
    by (auto simp: hashEvent_def Let_def split: sum.splits)
  have idx: "snd (handleEvent g e (nat n)) \<noteq> Panicked IndexOutOfRange"
    if g: "NUM_EVENT_CHANNELS g = n" for g :: Globals
  proof (cases "ConvertEvent g e
      (if sourceDBType g = ''postgresql'' \<and> SchemaName e \<noteq> ''public''
       then SchemaName e @ ''.'' @ EventTableName e else EventTableName e)
      (shouldFormatValues g e)")
    case (Inl err)
    then show ?thesis by (simp add: handleEvent_def Let_def)
  next
    case (Inr e')
    show ?thesis
    proof (cases "hashEvent n e'")
      case (Inl p)
      have "hashEvent_keys key hash ks \<noteq> Inl IndexOutOfRange" for key hash ks
        using hashEvent_keys_panic [of key hash ks IndexOutOfRange] by auto
      with Inl nz have "p \<noteq> IndexOutOfRange"
        by (auto simp: hashEvent_def Let_def split: sum.splits)
      with Inl Inr g show ?thesis by (simp add: handleEvent_def Let_def)
    next
      case h: (Inr h)
      from range [OF h] assms have "0 \<le> h \<and> h < int (nat n)" by simp
      with h Inr g show ?thesis by (simp add: handleEvent_def Let_def)
    qed
  qed
  from range total pan idx show ?thesis by blast
qed

text \<open>
  Claim C4. The flag \<^verbatim>\<open>shouldFormatValues(event)\<close> that \<^verbatim>\<open>handleEvent\<close> passes to
  \<^verbatim>\<open>ConvertEvent\<close> is true iff the target is YugabyteDB and the op is \<open>u\<close>, or the target
  is Oracle; \<^verbatim>\<open>handleEvent\<close> calls \<^verbatim>\<open>ConvertEvent\<close> first, once, on the event it was given.
\<close>

theorem shouldFormatValues_flag:
  "(shouldFormatValues g event \<longleftrightarrow>
      (TargetDBType g = YUGABYTEDB \<and> Op event = ''u'') \<or> TargetDBType g = ORACLE)
   \<and> (\<exists>tableName rest.
        fst (handleEvent g event len_evChans)
          = ConvertEventCall event tableName
              ((TargetDBType g = YUGABYTEDB \<and> Op event = ''u'') \<or> TargetDBType g = ORACLE) # rest
        \<and> (rest = [] \<or> (\<exists>h event'. rest = [ChanSend h (EventMsg event')])))"
  by (auto simp: handleEvent_def shouldFormatValues_def Let_def split: sum.splits)

theorem hashEvent_routing_stable_witness:
  "hashEvent 512 \<lparr>Vsn = 10, Op = ''u'', SchemaName = ''public'', EventTableName = ''t'',
       Key = [(''b'', Some ''7''), (''a'', Some ''1'')], Fields = []\<rparr> = Inr 288
   \<and> hashEvent 512 \<lparr>Vsn = 12, Op = ''d'', SchemaName = ''public'', EventTableName = ''t'',
       Key = [(''a'', Some ''1''), (''b'', Some ''7'')], Fields = [(''c'', None)]\<rparr> = Inr 288"
proof -
  let ?e1 = "\<lparr>Vsn = 10, Op = ''u'', SchemaName = ''public'', EventTableName = ''t'',
       Key = [(''b'', Some ''7''), (''a'', Some ''1'')], Fields = []\<rparr>"
  let ?e2 = "\<lparr>Vsn = 12, Op = ''d'', SchemaName = ''public'', EventTableName = ''t'',
       Key = [(''a'', Some ''1''), (''b'', Some ''7'')], Fields = [(''c'', None)]\<rparr>"
  have m: "map_of (Key ?e1) = map_of (Key ?e2)" by (auto simp: fun_eq_iff)
  have "hashEvent 512 ?e1 = hashEvent 512 ?e2"
    using hashEvent_routing_stable [of ?e1 ?e2 512, OF _ _ _ _ m] by simp
  moreover have "hashEvent 512 ?e2 = Inr 288"
    by (simp add: hashEvent_def offset64_def prime64_def)
  ultimately show ?thesis by simp
qed

theorem hashEvent_in_range_witness:
  "(0::int) < 512 \<and> (512::int) < 2 ^ 63
   \<and> hashEvent 512 \<lparr>Vsn = 10, Op = ''u'', SchemaName = ''public'', EventTableName = ''t'',
       Key = [(''id'', Some ''7'')], Fields = []\<rparr> = Inr 241
   \<and> (\<exists>h. hashEvent 512 \<lparr>Vsn = 10, Op = ''u'', SchemaName = ''public'', EventTableName = ''t'',
       Key = [(''id'', Some ''7'')], Fields = []\<rparr> = Inr h \<and> 0 \<le> h \<and> h < 512)
   \<and> snd (handleEvent
       \<lparr>NUM_EVENT_CHANNELS = 512, MAX_EVENTS_PER_BATCH = 2000, TargetDBType = ''yugabytedb'',
        sourceDBType = ''postgresql'', ConvertEvent = (\<lambda>e t f. Inr e),
        ExecuteBatch = (\<lambda>k b. True), MarkEventQueueSegmentAsProcessed_ok = (\<lambda>n. True)\<rparr>
       \<lparr>Vsn = 10, Op = ''u'', SchemaName = ''public'', EventTableName = ''t'',
       Key = [(''id'', Some ''7'')], Fields = []\<rparr> (nat 512)) \<noteq> Panicked IndexOutOfRange"
proof -
  let ?e = "\<lparr>Vsn = 10, Op = ''u'', SchemaName = ''public'', EventTableName = ''t'',
       Key = [(''id'', Some ''7'')], Fields = []\<rparr>"
  have h1: "(0::int) < 512" and h2: "(512::int) < 2 ^ 63" by simp_all
  have v: "hashEvent 512 ?e = Inr 241"
    by (simp add: hashEvent_def offset64_def prime64_def)
  have nn: "\<forall>(k, v) \<in> set (Key ?e). v \<noteq> None" by simp
  from hashEvent_in_range [OF h1 h2, of ?e] nn v h1 h2 show ?thesis
    by simp
qed

text \<open>
  Claim C3 as stated fails. An event with a nil key value makes \<^verbatim>\<open>hashEvent\<close> panic on
  the dereference, so it returns nothing. \<^verbatim>\<open>NUM_EVENT_CHANNELS\<close> is read from the
  environment with no check: at 0 the remainder panics, and at -1 \<^verbatim>\<open>hashEvent\<close> returns a
  negative number, with which \<^verbatim>\<open>handleEvent\<close> indexes the (empty) channel slice out of
  range.
\<close>

theorem hashEvent_in_range_counterexample:
  "hashEvent 512 \<lparr>Vsn = 10, Op = ''u'', SchemaName = ''public'', EventTableName = ''t'',
       Key = [(''id'', None)], Fields = []\<rparr> = Inl NilPointerDereference
   \<and> hashEvent 0 \<lparr>Vsn = 10, Op = ''u'', SchemaName = ''public'', EventTableName = ''t'',
       Key = [(''id'', Some ''7'')], Fields = []\<rparr> = Inl IntegerDivideByZero
   \<and> hashEvent (- 1) \<lparr>Vsn = 10, Op = ''u'', SchemaName = '''', EventTableName = ''a'',
       Key = [], Fields = []\<rparr> = Inr (- 5808556873153909620)
   \<and> snd (handleEvent
       \<lparr>NUM_EVENT_CHANNELS = - 1, MAX_EVENTS_PER_BATCH = 2000, TargetDBType = ''yugabytedb'',
        sourceDBType = ''postgresql'', ConvertEvent = (\<lambda>e t f. Inr e),
        ExecuteBatch = (\<lambda>k b. True), MarkEventQueueSegmentAsProcessed_ok = (\<lambda>n. True)\<rparr>
       \<lparr>Vsn = 10, Op = ''u'', SchemaName = '''', EventTableName = ''a'',
       Key = [], Fields = []\<rparr> 0) = Panicked IndexOutOfRange"
  by (simp add: handleEvent_def hashEvent_def offset64_def prime64_def)

theorem shouldFormatValues_flag_witness:
  "fst (handleEvent
       \<lparr>NUM_EVENT_CHANNELS = 512, MAX_EVENTS_PER_BATCH = 2000, TargetDBType = ''yugabytedb'',
        sourceDBType = ''postgresql'', ConvertEvent = (\<lambda>e t f. Inr e),
        ExecuteBatch = (\<lambda>k b. True), MarkEventQueueSegmentAsProcessed_ok = (\<lambda>n. True)\<rparr>
       \<lparr>Vsn = 10, Op = ''u'', SchemaName = ''sales'', EventTableName = ''t'',
       Key = [(''id'', Some ''7'')], Fields = []\<rparr> 512)
     = [ConvertEventCall \<lparr>Vsn = 10, Op = ''u'', SchemaName = ''sales'', EventTableName = ''t'',
          Key = [(''id'', Some ''7'')], Fields = []\<rparr> ''sales.t'' True,
        ChanSend 490 (EventMsg \<lparr>Vsn = 10, Op = ''u'', SchemaName = ''sales'', EventTableName = ''t'',
          Key = [(''id'', Some ''7'')], Fields = []\<rparr>)]
   \<and> \<not> shouldFormatValues
       \<lparr>NUM_EVENT_CHANNELS = 512, MAX_EVENTS_PER_BATCH = 2000, TargetDBType = ''yugabytedb'',
        sourceDBType = ''postgresql'', ConvertEvent = (\<lambda>e t f. Inr e),
        ExecuteBatch = (\<lambda>k b. True), MarkEventQueueSegmentAsProcessed_ok = (\<lambda>n. True)\<rparr>
       \<lparr>Vsn = 11, Op = ''c'', SchemaName = ''sales'', EventTableName = ''t'',
       Key = [(''id'', Some ''7'')], Fields = []\<rparr>
   \<and> shouldFormatValues
       \<lparr>NUM_EVENT_CHANNELS = 512, MAX_EVENTS_PER_BATCH = 2000, TargetDBType = ''oracle'',
        sourceDBType = ''postgresql'', ConvertEvent = (\<lambda>e t f. Inr e),
        ExecuteBatch = (\<lambda>k b. True), MarkEventQueueSegmentAsProcessed_ok = (\<lambda>n. True)\<rparr>
       \<lparr>Vsn = 11, Op = ''c'', SchemaName = ''sales'', EventTableName = ''t'',
       Key = [(''id'', Some ''7'')], Fields = []\<rparr>
   \<and> \<not> shouldFormatValues
       \<lparr>NUM_EVENT_CHANNELS = 512, MAX_EVENTS_PER_BATCH = 2000, TargetDBType = ''postgresql'',
        sourceDBType = ''postgresql'', ConvertEvent = (\<lambda>e t f. Inr e),
        ExecuteBatch = (\<lambda>k b. True), MarkEventQueueSegmentAsProcessed_ok = (\<lambda>n. True)\<rparr>
       \<lparr>Vsn = 11, Op = ''u'', SchemaName = ''sales'', EventTableName = ''t'',
       Key = [(''id'', Some ''7'')], Fields = []\<rparr>"
proof -
  have run: "fst (handleEvent
       \<lparr>NUM_EVENT_CHANNELS = 512, MAX_EVENTS_PER_BATCH = 2000, TargetDBType = ''yugabytedb'',
        sourceDBType = ''postgresql'', ConvertEvent = (\<lambda>e t f. Inr e),
        ExecuteBatch = (\<lambda>k b. True), MarkEventQueueSegmentAsProcessed_ok = (\<lambda>n. True)\<rparr>
       \<lparr>Vsn = 10, Op = ''u'', SchemaName = ''sales'', EventTableName = ''t'',
       Key = [(''id'', Some ''7'')], Fields = []\<rparr> 512)
     = [ConvertEventCall \<lparr>Vsn = 10, Op = ''u'', SchemaName = ''sales'', EventTableName = ''t'',
          Key = [(''id'', Some ''7'')], Fields = []\<rparr> ''sales.t'' True,
        ChanSend 490 (EventMsg \<lparr>Vsn = 10, Op = ''u'', SchemaName = ''sales'', EventTableName = ''t'',
          Key = [(''id'', Some ''7'')], Fields = []\<rparr>)]"
    by (simp add: handleEvent_def shouldFormatValues_def YUGABYTEDB_def ORACLE_def
        hashEvent_def offset64_def prime64_def)
  show ?thesis
    using run
      shouldFormatValues_flag [of "\<lparr>NUM_EVENT_CHANNELS = 512, MAX_EVENTS_PER_BATCH = 2000,
        TargetDBType = ''yugabytedb'',
        sourceDBType = ''postgresql'', ConvertEvent = (\<lambda>e t f. Inr e),
        ExecuteBatch = (\<lambda>k b. True), MarkEventQueueSegmentAsProcessed_ok = (\<lambda>n. True)\<rparr>"
        "\<lparr>Vsn = 11, Op = ''c'', SchemaName = ''sales'', EventTableName = ''t'',
       Key = [(''id'', Some ''7'')], Fields = []\<rparr>" 512]
      shouldFormatValues_flag [of "\<lparr>NUM_EVENT_CHANNELS = 512, MAX_EVENTS_PER_BATCH = 2000,
        TargetDBType = ''oracle'',
        sourceDBType = ''postgresql'', ConvertEvent = (\<lambda>e t f. Inr e),
        ExecuteBatch = (\<lambda>k b. True), MarkEventQueueSegmentAsProcessed_ok = (\<lambda>n. True)\<rparr>"
        "\<lparr>Vsn = 11, Op = ''c'', SchemaName = ''sales'', EventTableName = ''t'',
       Key = [(''id'', Some ''7'')], Fields = []\<rparr>" 512]
      shouldFormatValues_flag [of "\<lparr>NUM_EVENT_CHANNELS = 512, MAX_EVENTS_PER_BATCH = 2000,
        TargetDBType = ''postgresql'',
        sourceDBType = ''postgresql'', ConvertEvent = (\<lambda>e t f. Inr e),
        ExecuteBatch = (\<lambda>k b. True), MarkEventQueueSegmentAsProcessed_ok = (\<lambda>n. True)\<rparr>"
        "\<lparr>Vsn = 11, Op = ''u'', SchemaName = ''sales'', EventTableName = ''t'',
       Key = [(''id'', Some ''7'')], Fields = []\<rparr>" 512]
    by (simp add: YUGABYTEDB_def ORACLE_def)
qed

subsection \<open>The channel worker\<close>

lemma batching_length:
  "batching max_events lastAppliedVsn batch inputs = BatchingBreak batch' eop rest \<Longrightarrow>
   int (length batch) < max_events \<Longrightarrow> int (length batch') \<le> max_events"
  by (induction max_events lastAppliedVsn batch inputs rule: batching.induct)
     (auto split: if_splits)

lemma batching_filter:
  "batching max_events lastAppliedVsn batch inputs = BatchingBreak batch' eop rest \<Longrightarrow>
   \<exists>consumed. inputs = consumed @ rest
      \<and> batch' = batch @ filter (\<lambda>e. lastAppliedVsn < Vsn e) (events_of consumed)"
proof (induction max_events lastAppliedVsn batch inputs rule: batching.induct)
  case (1 max_events lastAppliedVsn batch)
  then show ?case by simp
next
  case (2 max_events lastAppliedVsn batch rest')
  then have "TimerFired # rest' = [TimerFired] @ rest
      \<and> batch' = batch @ filter (\<lambda>e. lastAppliedVsn < Vsn e) (events_of [TimerFired])"
    by simp
  then show ?case by blast
next
  case (3 max_events lastAppliedVsn batch rest')
  then have "Recv END_OF_QUEUE_SEGMENT_EVENT # rest' = [Recv END_OF_QUEUE_SEGMENT_EVENT] @ rest
      \<and> batch' = batch
          @ filter (\<lambda>e. lastAppliedVsn < Vsn e) (events_of [Recv END_OF_QUEUE_SEGMENT_EVENT])"
    by simp
  then show ?case by blast
next
  case (4 max_events lastAppliedVsn batch event rest')
  show ?case
  proof (cases "Vsn event \<le> lastAppliedVsn")
    case True
    with 4 obtain consumed where "rest' = consumed @ rest"
      "batch' = batch @ filter (\<lambda>e. lastAppliedVsn < Vsn e) (events_of consumed)"
      by auto
    with True have "Recv (EventMsg event) # rest' = (Recv (EventMsg event) # consumed) @ rest
      \<and> batch' = batch
          @ filter (\<lambda>e. lastAppliedVsn < Vsn e) (events_of (Recv (EventMsg event) # consumed))"
      by simp
    then show ?thesis by blast
  next
    case False
    show ?thesis
    proof (cases "max_events \<le> int (length (batch @ [event]))")
      case True
      with False 4 have "Recv (EventMsg event) # rest' = [Recv (EventMsg event)] @ rest
        \<and> batch' = batch
            @ filter (\<lambda>e. lastAppliedVsn < Vsn e) (events_of [Recv (EventMsg event)])"
        by simp
      then show ?thesis by blast
    next
      case notfull: False
      with False 4 obtain consumed where "rest' = consumed @ rest"
        "batch' = (batch @ [event]) @ filter (\<lambda>e. lastAppliedVsn < Vsn e) (events_of consumed)"
        by auto
      with False have "Recv (EventMsg event) # rest' = (Recv (EventMsg event) # consumed) @ rest
        \<and> batch' = batch
            @ filter (\<lambda>e. lastAppliedVsn < Vsn e) (events_of (Recv (EventMsg event) # consumed))"
        by simp
      then show ?thesis by blast
    qed
  qed
qed

lemma batching_blocked_filter:
  "batching max_events lastAppliedVsn batch inputs = BatchingBlocked batch' \<Longrightarrow>
   batch' = batch @ filter (\<lambda>e. lastAppliedVsn < Vsn e) (events_of inputs)"
  by (induction max_events lastAppliedVsn batch inputs rule: batching.induct)
     (auto split: if_splits)

lemma events_of_append: "events_of (xs @ ys) = events_of xs @ events_of ys"
  by (induction xs rule: events_of.induct) simp_all

lemma processEvents_loop_calls:
  assumes "1 \<le> MAX_EVENTS_PER_BATCH g"
    and "\<forall>b \<in> set calls. 1 \<le> length b \<and> int (length b) \<le> MAX_EVENTS_PER_BATCH g"
  shows "\<forall>b \<in> set (w_executeBatchCalls (processEvents_loop g lastAppliedVsn calls inputs)).
           1 \<le> length b \<and> int (length b) \<le> MAX_EVENTS_PER_BATCH g"
  using assms
proof (induction g lastAppliedVsn calls inputs rule: processEvents_loop.induct)
  case (1 g lastAppliedVsn calls inputs)
  show ?case
  proof (cases "batching (MAX_EVENTS_PER_BATCH g) lastAppliedVsn [] inputs")
    case (BatchingBlocked batch)
    with "1.prems" show ?thesis by (simp add: processEvents_loop.simps [of g _ calls inputs])
  next
    case (BatchingBreak batch eop rest)
    from batching_length [OF BatchingBreak] "1.prems"(1)
    have len: "int (length batch) \<le> MAX_EVENTS_PER_BATCH g" by simp
    show ?thesis
    proof (cases "length batch = 0")
      case True
      with BatchingBreak "1.prems" "1.IH"(1) show ?thesis
        by (simp add: processEvents_loop.simps [of g _ calls inputs])
    next
      case False
      then have "1 \<le> length batch" by (cases batch) simp_all
      with len have ok: "\<forall>b \<in> set (calls @ [batch]).
          1 \<le> length b \<and> int (length b) \<le> MAX_EVENTS_PER_BATCH g"
        using "1.prems"(2) by auto
      show ?thesis
      proof (cases "ExecuteBatch g (length calls) batch \<and> \<not> eop")
        case True
        with BatchingBreak False "1.IH"(2) [OF BatchingBreak _ _ _ "1.prems"(1) ok]
        show ?thesis by (simp add: processEvents_loop.simps [of g _ calls inputs])
      next
        case stop: False
        with BatchingBreak False ok show ?thesis
          by (auto simp: processEvents_loop.simps [of g _ calls inputs])
      qed
    qed
  qed
qed

lemma processEvents_loop_constant_vsn:
  "w_lastAppliedVsn (processEvents_loop g lastAppliedVsn calls inputs) = lastAppliedVsn"
proof (induction g lastAppliedVsn calls inputs rule: processEvents_loop.induct)
  case (1 g lastAppliedVsn calls inputs)
  show ?case
  proof (cases "batching (MAX_EVENTS_PER_BATCH g) lastAppliedVsn [] inputs")
    case (BatchingBlocked batch)
    then show ?thesis by (simp add: processEvents_loop.simps [of g _ calls inputs])
  next
    case (BatchingBreak batch eop rest)
    with "1.IH" show ?thesis
      by (simp add: processEvents_loop.simps [of g _ calls inputs])
  qed
qed

lemma processEvents_loop_filter:
  "\<exists>consumed. inputs = consumed @ w_rest (processEvents_loop g lastAppliedVsn calls inputs)
     \<and> concat (w_executeBatchCalls (processEvents_loop g lastAppliedVsn calls inputs))
         @ w_pending (processEvents_loop g lastAppliedVsn calls inputs)
       = concat calls @ filter (\<lambda>e. lastAppliedVsn < Vsn e) (events_of consumed)"
proof (induction g lastAppliedVsn calls inputs rule: processEvents_loop.induct)
  case (1 g lastAppliedVsn calls inputs)
  let ?P = "\<lambda>e. lastAppliedVsn < Vsn e"
  let ?r = "processEvents_loop g lastAppliedVsn calls inputs"
  show ?case
  proof (cases "batching (MAX_EVENTS_PER_BATCH g) lastAppliedVsn [] inputs")
    case (BatchingBlocked batch)
    from BatchingBlocked
    have r: "?r = \<lparr>w_lastAppliedVsn = lastAppliedVsn, w_pending = batch,
            w_executeBatchCalls = calls, w_status = BlockedInSelect, w_rest = []\<rparr>"
      by (simp add: processEvents_loop.simps [of g _ calls inputs])
    from batching_blocked_filter [OF BatchingBlocked]
    have "inputs = inputs @ w_rest ?r
        \<and> concat (w_executeBatchCalls ?r) @ w_pending ?r = concat calls @ filter ?P (events_of inputs)"
      unfolding r by simp
    then show ?thesis by blast
  next
    case (BatchingBreak batch eop rest)
    from batching_filter [OF this] obtain c1 where
      c1: "inputs = c1 @ rest" and b: "batch = filter ?P (events_of c1)"
      by auto
    show ?thesis
    proof (cases "length batch = 0")
      case True
      show ?thesis
      proof (cases eop)
        case True
        with \<open>length batch = 0\<close> BatchingBreak
        have r: "?r = \<lparr>w_lastAppliedVsn = lastAppliedVsn, w_pending = [],
            w_executeBatchCalls = calls, w_status = DoneSent, w_rest = rest\<rparr>"
          by (simp add: processEvents_loop.simps [of g _ calls inputs])
        have "inputs = c1 @ w_rest ?r
          \<and> concat (w_executeBatchCalls ?r) @ w_pending ?r = concat calls @ filter ?P (events_of c1)"
          unfolding r using c1 b \<open>length batch = 0\<close> by simp
        then show ?thesis by blast
      next
        case False
        let ?r' = "processEvents_loop g lastAppliedVsn calls rest"
        from "1.IH"(1) [OF BatchingBreak True False] obtain c2 where
          c2: "rest = c2 @ w_rest ?r'"
          and f2: "concat (w_executeBatchCalls ?r') @ w_pending ?r'
                = concat calls @ filter ?P (events_of c2)"
          by blast
        have r: "?r = ?r'"
          using BatchingBreak True False by (simp add: processEvents_loop.simps [of g _ calls inputs])
        have "inputs = (c1 @ c2) @ w_rest ?r" using c1 c2 r by simp
        moreover have "concat (w_executeBatchCalls ?r) @ w_pending ?r
            = concat calls @ filter ?P (events_of (c1 @ c2))"
          using f2 r b True by (simp add: events_of_append)
        ultimately show ?thesis by blast
      qed
    next
      case nonempty: False
      show ?thesis
      proof (cases "ExecuteBatch g (length calls) batch \<and> \<not> eop")
        case True
        let ?r' = "processEvents_loop g lastAppliedVsn (calls @ [batch]) rest"
        from True "1.IH"(2) [OF BatchingBreak nonempty] obtain c2 where
          c2: "rest = c2 @ w_rest ?r'"
          and f2: "concat (w_executeBatchCalls ?r') @ w_pending ?r'
                = concat (calls @ [batch]) @ filter ?P (events_of c2)"
          by blast
        have r: "?r = ?r'"
          using BatchingBreak nonempty True
          by (simp add: processEvents_loop.simps [of g _ calls inputs])
        have "inputs = (c1 @ c2) @ w_rest ?r" using c1 c2 r by simp
        moreover have "concat (w_executeBatchCalls ?r) @ w_pending ?r
            = concat calls @ filter ?P (events_of (c1 @ c2))"
          using f2 r b by (simp add: events_of_append)
        ultimately show ?thesis by blast
      next
        case False
        with nonempty BatchingBreak
        have r: "w_rest ?r = rest \<and> w_pending ?r = [] \<and> w_executeBatchCalls ?r = calls @ [batch]"
          by (auto simp: processEvents_loop.simps [of g _ calls inputs])
        have "inputs = c1 @ w_rest ?r
          \<and> concat (w_executeBatchCalls ?r) @ w_pending ?r = concat calls @ filter ?P (events_of c1)"
          using r c1 b by simp
        then show ?thesis by blast
      qed
    qed
  qed
qed

lemma processEvents_loop_nonempty:
  assumes "\<forall>b \<in> set calls. b \<noteq> []"
  shows "\<forall>b \<in> set (w_executeBatchCalls (processEvents_loop g lastAppliedVsn calls inputs)). b \<noteq> []"
  using assms
proof (induction g lastAppliedVsn calls inputs rule: processEvents_loop.induct)
  case (1 g lastAppliedVsn calls inputs)
  show ?case
  proof (cases "batching (MAX_EVENTS_PER_BATCH g) lastAppliedVsn [] inputs")
    case (BatchingBlocked batch)
    with "1.prems" show ?thesis by (simp add: processEvents_loop.simps [of g _ calls inputs])
  next
    case (BatchingBreak batch eop rest)
    show ?thesis
    proof (cases "length batch = 0")
      case True
      with BatchingBreak "1.prems" "1.IH"(1) show ?thesis
        by (simp add: processEvents_loop.simps [of g _ calls inputs])
    next
      case False
      then have ok: "\<forall>b \<in> set (calls @ [batch]). b \<noteq> []"
        using "1.prems" by auto
      show ?thesis
      proof (cases "ExecuteBatch g (length calls) batch \<and> \<not> eop")
        case True
        with BatchingBreak False "1.IH"(2) [OF BatchingBreak _ _ _ ok]
        show ?thesis by (simp add: processEvents_loop.simps [of g _ calls inputs])
      next
        case stop: False
        with BatchingBreak False ok show ?thesis
          by (auto simp: processEvents_loop.simps [of g _ calls inputs])
      qed
    qed
  qed
qed

text \<open>
  Claim C8, as amended. Every batch that a channel worker passes to \<^verbatim>\<open>tdb.ExecuteBatch\<close> holds at
  least one event, and, \<^verbatim>\<open>MAX_EVENTS_PER_BATCH\<close> being at least 1, at most
  \<^verbatim>\<open>MAX_EVENTS_PER_BATCH\<close> events: batching stops as soon as the batch reaches that size,
  and an empty batch is never executed.
\<close>

theorem executed_batch_size:
  "(\<forall>b \<in> set (w_executeBatchCalls (processEvents g lastAppliedVsn inputs)). 1 \<le> length b)
   \<and> (1 \<le> MAX_EVENTS_PER_BATCH g \<longrightarrow>
        (\<forall>b \<in> set (w_executeBatchCalls (processEvents g lastAppliedVsn inputs)).
           int (length b) \<le> MAX_EVENTS_PER_BATCH g))"
proof -
  have "\<forall>b \<in> set (w_executeBatchCalls (processEvents g lastAppliedVsn inputs)). b \<noteq> []"
    unfolding processEvents_def by (rule processEvents_loop_nonempty) simp
  then have ne: "\<forall>b \<in> set (w_executeBatchCalls (processEvents g lastAppliedVsn inputs)). 1 \<le> length b"
    by (auto simp: Suc_le_eq)
  have "\<forall>b \<in> set (w_executeBatchCalls (processEvents g lastAppliedVsn inputs)).
           1 \<le> length b \<and> int (length b) \<le> MAX_EVENTS_PER_BATCH g"
    if "1 \<le> MAX_EVENTS_PER_BATCH g"
    unfolding processEvents_def using that by (rule processEvents_loop_calls) simp
  with ne show ?thesis by blast
qed

theorem executed_batch_size_witness:
  "w_executeBatchCalls (processEvents \<lparr>NUM_EVENT_CHANNELS = 512, MAX_EVENTS_PER_BATCH = 2, TargetDBType = ''yugabytedb'',
        sourceDBType = ''postgresql'', ConvertEvent = (\<lambda>e t f. Inr e),
        ExecuteBatch = (\<lambda>k b. True), MarkEventQueueSegmentAsProcessed_ok = (\<lambda>n. True)\<rparr> 4
      [Recv (EventMsg \<lparr>Vsn = 5, Op = ''u'', SchemaName = ''public'', EventTableName = ''t'',
          Key = [(''id'', Some ''7'')], Fields = []\<rparr>),
       Recv (EventMsg \<lparr>Vsn = 6, Op = ''u'', SchemaName = ''public'', EventTableName = ''t'',
          Key = [(''id'', Some ''7'')], Fields = []\<rparr>),
       Recv (EventMsg \<lparr>Vsn = 3, Op = ''u'', SchemaName = ''public'', EventTableName = ''t'',
          Key = [(''id'', Some ''7'')], Fields = []\<rparr>),
       Recv (EventMsg \<lparr>Vsn = 7, Op = ''u'', SchemaName = ''public'', EventTableName = ''t'',
          Key = [(''id'', Some ''7'')], Fields = []\<rparr>),
       Recv END_OF_QUEUE_SEGMENT_EVENT, TimerFired])
     = [[\<lparr>Vsn = 5, Op = ''u'', SchemaName = ''public'', EventTableName = ''t'',
          Key = [(''id'', Some ''7'')], Fields = []\<rparr>, \<lparr>Vsn = 6, Op = ''u'', SchemaName = ''public'', EventTableName = ''t'',
          Key = [(''id'', Some ''7'')], Fields = []\<rparr>], [\<lparr>Vsn = 7, Op = ''u'', SchemaName = ''public'', EventTableName = ''t'',
          Key = [(''id'', Some ''7'')], Fields = []\<rparr>]]
   \<and> (1::int) \<le> 2
   \<and> list_all (\<lambda>b. 1 \<le> length b \<and> int (length b) \<le> 2) (w_executeBatchCalls (processEvents \<lparr>NUM_EVENT_CHANNELS = 512, MAX_EVENTS_PER_BATCH = 2, TargetDBType = ''yugabytedb'',
        sourceDBType = ''postgresql'', ConvertEvent = (\<lambda>e t f. Inr e),
        ExecuteBatch = (\<lambda>k b. True), MarkEventQueueSegmentAsProcessed_ok = (\<lambda>n. True)\<rparr> 4
      [Recv (EventMsg \<lparr>Vsn = 5, Op = ''u'', SchemaName = ''public'', EventTableName = ''t'',
          Key = [(''id'', Some ''7'')], Fields = []\<rparr>),
       Recv (EventMsg \<lparr>Vsn = 6, Op = ''u'', SchemaName = ''public'', EventTableName = ''t'',
          Key = [(''id'', Some ''7'')], Fields = []\<rparr>),
       Recv (EventMsg \<lparr>Vsn = 3, Op = ''u'', SchemaName = ''public'', EventTableName = ''t'',
          Key = [(''id'', Some ''7'')], Fields = []\<rparr>),
       Recv (EventMsg \<lparr>Vsn = 7, Op = ''u'', SchemaName = ''public'', EventTableName = ''t'',
          Key = [(''id'', Some ''7'')], Fields = []\<rparr>),
       Recv END_OF_QUEUE_SEGMENT_EVENT, TimerFired]))"
proof -
  have run: "w_executeBatchCalls (processEvents \<lparr>NUM_EVENT_CHANNELS = 512, MAX_EVENTS_PER_BATCH = 2, TargetDBType = ''yugabytedb'',
        sourceDBType = ''postgresql'', ConvertEvent = (\<lambda>e t f. Inr e),
        ExecuteBatch = (\<lambda>k b. True), MarkEventQueueSegmentAsProcessed_ok = (\<lambda>n. True)\<rparr> 4
      [Recv (EventMsg \<lparr>Vsn = 5, Op = ''u'', SchemaName = ''public'', EventTableName = ''t'',
          Key = [(''id'', Some ''7'')], Fields = []\<rparr>),
       Recv (EventMsg \<lparr>Vsn = 6, Op = ''u'', SchemaName = ''public'', EventTableName = ''t'',
          Key = [(''id'', Some ''7'')], Fields = []\<rparr>),
       Recv (EventMsg \<lparr>Vsn = 3, Op = ''u'', SchemaName = ''public'', EventTableName = ''t'',
          Key = [(''id'', Some ''7'')], Fields = []\<rparr>),
       Recv (EventMsg \<lparr>Vsn = 7, Op = ''u'', SchemaName = ''public'', EventTableName = ''t'',
          Key = [(''id'', Some ''7'')], Fields = []\<rparr>),
       Recv END_OF_QUEUE_SEGMENT_EVENT, TimerFired])
     = [[\<lparr>Vsn = 5, Op = ''u'', SchemaName = ''public'', EventTableName = ''t'',
          Key = [(''id'', Some ''7'')], Fields = []\<rparr>, \<lparr>Vsn = 6, Op = ''u'', SchemaName = ''public'', EventTableName = ''t'',
          Key = [(''id'', Some ''7'')], Fields = []\<rparr>], [\<lparr>Vsn = 7, Op = ''u'', SchemaName = ''public'', EventTableName = ''t'',
          Key = [(''id'', Some ''7'')], Fields = []\<rparr>]]"
    by (simp add: processEvents_def processEvents_loop.simps)
  from executed_batch_size [of "\<lparr>NUM_EVENT_CHANNELS = 512, MAX_EVENTS_PER_BATCH = 2, TargetDBType = ''yugabytedb'',
        sourceDBType = ''postgresql'', ConvertEvent = (\<lambda>e t f. Inr e),
        ExecuteBatch = (\<lambda>k b. True), MarkEventQueueSegmentAsProcessed_ok = (\<lambda>n. True)\<rparr>" 4 "[Recv (EventMsg \<lparr>Vsn = 5, Op = ''u'', SchemaName = ''public'', EventTableName = ''t'',
          Key = [(''id'', Some ''7'')], Fields = []\<rparr>),
       Recv (EventMsg \<lparr>Vsn = 6, Op = ''u'', SchemaName = ''public'', EventTableName = ''t'',
          Key = [(''id'', Some ''7'')], Fields = []\<rparr>),
       Recv (EventMsg \<lparr>Vsn = 3, Op = ''u'', SchemaName = ''public'', EventTableName = ''t'',
          Key = [(''id'', Some ''7'')], Fields = []\<rparr>),
       Recv (EventMsg \<lparr>Vsn = 7, Op = ''u'', SchemaName = ''public'', EventTableName = ''t'',
          Key = [(''id'', Some ''7'')], Fields = []\<rparr>),
       Recv END_OF_QUEUE_SEGMENT_EVENT, TimerFired]"]
  show ?thesis unfolding run by simp
qed

text \<open>
  Claim C8 as stated fails. \<^verbatim>\<open>MAX_EVENTS_PER_BATCH\<close> is read from the environment with no
  check: at 0 the first event appended already satisfies \<^verbatim>\<open>len(batch) >= 0\<close>, and the
  worker executes a batch of one event, more than \<^verbatim>\<open>MAX_EVENTS_PER_BATCH\<close>.
\<close>

theorem executed_batch_size_counterexample:
  "w_executeBatchCalls (processEvents
       \<lparr>NUM_EVENT_CHANNELS = 512, MAX_EVENTS_PER_BATCH = 0, TargetDBType = ''yugabytedb'',
        sourceDBType = ''postgresql'', ConvertEvent = (\<lambda>e t f. Inr e),
        ExecuteBatch = (\<lambda>k b. True), MarkEventQueueSegmentAsProcessed_ok = (\<lambda>n. True)\<rparr> 0
       [Recv (EventMsg \<lparr>Vsn = 5, Op = ''u'', SchemaName = ''public'', EventTableName = ''t'',
          Key = [(''id'', Some ''7'')], Fields = []\<rparr>), Recv END_OF_QUEUE_SEGMENT_EVENT])
     = [[\<lparr>Vsn = 5, Op = ''u'', SchemaName = ''public'', EventTableName = ''t'',
          Key = [(''id'', Some ''7'')], Fields = []\<rparr>]]
   \<and> MAX_EVENTS_PER_BATCH
       \<lparr>NUM_EVENT_CHANNELS = 512, MAX_EVENTS_PER_BATCH = 0, TargetDBType = ''yugabytedb'',
        sourceDBType = ''postgresql'', ConvertEvent = (\<lambda>e t f. Inr e),
        ExecuteBatch = (\<lambda>k b. True), MarkEventQueueSegmentAsProcessed_ok = (\<lambda>n. True)\<rparr>
       < int (length [\<lparr>Vsn = 5, Op = ''u'', SchemaName = ''public'', EventTableName = ''t'',
          Key = [(''id'', Some ''7'')], Fields = []\<rparr>])"
  by (simp add: processEvents_def processEvents_loop.simps)

text \<open>
  Claim C1, as amended. The worker's \<^verbatim>\<open>lastAppliedVsn\<close> is the value it was started with
  (the one read from \<^verbatim>\<open>event_channels_metadata\<close>) for the whole run: no applied batch
  changes it. An event received from the channel is added to the current batch iff its VSN
  is strictly greater than that value: the events of the executed batches followed by
  those of the batch being formed are exactly the received events with a greater VSN, in
  the order received.
\<close>

theorem processEvents_watermark_fixed:
  "w_lastAppliedVsn (processEvents g lastAppliedVsn inputs) = lastAppliedVsn
   \<and> (\<exists>consumed.
         inputs = consumed @ w_rest (processEvents g lastAppliedVsn inputs)
       \<and> concat (w_executeBatchCalls (processEvents g lastAppliedVsn inputs))
           @ w_pending (processEvents g lastAppliedVsn inputs)
         = filter (\<lambda>e. lastAppliedVsn < Vsn e) (events_of consumed))"
  using processEvents_loop_constant_vsn [of g lastAppliedVsn "[]" inputs]
    processEvents_loop_filter [of inputs g lastAppliedVsn "[]"]
  by (simp add: processEvents_def)

theorem processEvents_watermark_fixed_witness:
  "w_lastAppliedVsn (processEvents \<lparr>NUM_EVENT_CHANNELS = 512, MAX_EVENTS_PER_BATCH = 2, TargetDBType = ''yugabytedb'',
        sourceDBType = ''postgresql'', ConvertEvent = (\<lambda>e t f. Inr e),
        ExecuteBatch = (\<lambda>k b. True), MarkEventQueueSegmentAsProcessed_ok = (\<lambda>n. True)\<rparr> 4
      [Recv (EventMsg \<lparr>Vsn = 5, Op = ''u'', SchemaName = ''public'', EventTableName = ''t'',
          Key = [(''id'', Some ''7'')], Fields = []\<rparr>),
       Recv (EventMsg \<lparr>Vsn = 6, Op = ''u'', SchemaName = ''public'', EventTableName = ''t'',
          Key = [(''id'', Some ''7'')], Fields = []\<rparr>),
       Recv (EventMsg \<lparr>Vsn = 3, Op = ''u'', SchemaName = ''public'', EventTableName = ''t'',
          Key = [(''id'', Some ''7'')], Fields = []\<rparr>),
       Recv (EventMsg \<lparr>Vsn = 7, Op = ''u'', SchemaName = ''public'', EventTableName = ''t'',
          Key = [(''id'', Some ''7'')], Fields = []\<rparr>),
       Recv END_OF_QUEUE_SEGMENT_EVENT, TimerFired]) = 4
   \<and> w_executeBatchCalls (processEvents \<lparr>NUM_EVENT_CHANNELS = 512, MAX_EVENTS_PER_BATCH = 2, TargetDBType = ''yugabytedb'',
        sourceDBType = ''postgresql'', ConvertEvent = (\<lambda>e t f. Inr e),
        ExecuteBatch = (\<lambda>k b. True), MarkEventQueueSegmentAsProcessed_ok = (\<lambda>n. True)\<rparr> 4
      [Recv (EventMsg \<lparr>Vsn = 5, Op = ''u'', SchemaName = ''public'', EventTableName = ''t'',
          Key = [(''id'', Some ''7'')], Fields = []\<rparr>),
       Recv (EventMsg \<lparr>Vsn = 6, Op = ''u'', SchemaName = ''public'', EventTableName = ''t'',
          Key = [(''id'', Some ''7'')], Fields = []\<rparr>),
       Recv (EventMsg \<lparr>Vsn = 3, Op = ''u'', SchemaName = ''public'', EventTableName = ''t'',
          Key = [(''id'', Some ''7'')], Fields = []\<rparr>),
       Recv (EventMsg \<lparr>Vsn = 7, Op = ''u'', SchemaName = ''public'', EventTableName = ''t'',
          Key = [(''id'', Some ''7'')], Fields = []\<rparr>),
       Recv END_OF_QUEUE_SEGMENT_EVENT, TimerFired]) = [[\<lparr>Vsn = 5, Op = ''u'', SchemaName = ''public'', EventTableName = ''t'',
          Key = [(''id'', Some ''7'')], Fields = []\<rparr>, \<lparr>Vsn = 6, Op = ''u'', SchemaName = ''public'', EventTableName = ''t'',
          Key = [(''id'', Some ''7'')], Fields = []\<rparr>], [\<lparr>Vsn = 7, Op = ''u'', SchemaName = ''public'', EventTableName = ''t'',
          Key = [(''id'', Some ''7'')], Fields = []\<rparr>]]
   \<and> w_rest (processEvents \<lparr>NUM_EVENT_CHANNELS = 512, MAX_EVENTS_PER_BATCH = 2, TargetDBType = ''yugabytedb'',
        sourceDBType = ''postgresql'', ConvertEvent = (\<lambda>e t f. Inr e),
        ExecuteBatch = (\<lambda>k b. True), MarkEventQueueSegmentAsProcessed_ok = (\<lambda>n. True)\<rparr> 4
      [Recv (EventMsg \<lparr>Vsn = 5, Op = ''u'', SchemaName = ''public'', EventTableName = ''t'',
          Key = [(''id'', Some ''7'')], Fields = []\<rparr>),
       Recv (EventMsg \<lparr>Vsn = 6, Op = ''u'', SchemaName = ''public'', EventTableName = ''t'',
          Key = [(''id'', Some ''7'')], Fields = []\<rparr>),
       Recv (EventMsg \<lparr>Vsn = 3, Op = ''u'', SchemaName = ''public'', EventTableName = ''t'',
          Key = [(''id'', Some ''7'')], Fields = []\<rparr>),
       Recv (EventMsg \<lparr>Vsn = 7, Op = ''u'', SchemaName = ''public'', EventTableName = ''t'',
          Key = [(''id'', Some ''7'')], Fields = []\<rparr>),
       Recv END_OF_QUEUE_SEGMENT_EVENT, TimerFired]) = [TimerFired]"
proof -
  have run: "w_executeBatchCalls (processEvents \<lparr>NUM_EVENT_CHANNELS = 512, MAX_EVENTS_PER_BATCH = 2, TargetDBType = ''yugabytedb'',
        sourceDBType = ''postgresql'', ConvertEvent = (\<lambda>e t f. Inr e),
        ExecuteBatch = (\<lambda>k b. True), MarkEventQueueSegmentAsProcessed_ok = (\<lambda>n. True)\<rparr> 4
      [Recv (EventMsg \<lparr>Vsn = 5, Op = ''u'', SchemaName = ''public'', EventTableName = ''t'',
          Key = [(''id'', Some ''7'')], Fields = []\<rparr>),
       Recv (EventMsg \<lparr>Vsn = 6, Op = ''u'', SchemaName = ''public'', EventTableName = ''t'',
          Key = [(''id'', Some ''7'')], Fields = []\<rparr>),
       Recv (EventMsg \<lparr>Vsn = 3, Op = ''u'', SchemaName = ''public'', EventTableName = ''t'',
          Key = [(''id'', Some ''7'')], Fields = []\<rparr>),
       Recv (EventMsg \<lparr>Vsn = 7, Op = ''u'', SchemaName = ''public'', EventTableName = ''t'',
          Key = [(''id'', Some ''7'')], Fields = []\<rparr>),
       Recv END_OF_QUEUE_SEGMENT_EVENT, TimerFired]) = [[\<lparr>Vsn = 5, Op = ''u'', SchemaName = ''public'', EventTableName = ''t'',
          Key = [(''id'', Some ''7'')], Fields = []\<rparr>, \<lparr>Vsn = 6, Op = ''u'', SchemaName = ''public'', EventTableName = ''t'',
          Key = [(''id'', Some ''7'')], Fields = []\<rparr>], [\<lparr>Vsn = 7, Op = ''u'', SchemaName = ''public'', EventTableName = ''t'',
          Key = [(''id'', Some ''7'')], Fields = []\<rparr>]] \<and> w_rest (processEvents \<lparr>NUM_EVENT_CHANNELS = 512, MAX_EVENTS_PER_BATCH = 2, TargetDBType = ''yugabytedb'',
        sourceDBType = ''postgresql'', ConvertEvent = (\<lambda>e t f. Inr e),
        ExecuteBatch = (\<lambda>k b. True), MarkEventQueueSegmentAsProcessed_ok = (\<lambda>n. True)\<rparr> 4
      [Recv (EventMsg \<lparr>Vsn = 5, Op = ''u'', SchemaName = ''public'', EventTableName = ''t'',
          Key = [(''id'', Some ''7'')], Fields = []\<rparr>),
       Recv (EventMsg \<lparr>Vsn = 6, Op = ''u'', SchemaName = ''public'', EventTableName = ''t'',
          Key = [(''id'', Some ''7'')], Fields = []\<rparr>),
       Recv (EventMsg \<lparr>Vsn = 3, Op = ''u'', SchemaName = ''public'', EventTableName = ''t'',
          Key = [(''id'', Some ''7'')], Fields = []\<rparr>),
       Recv (EventMsg \<lparr>Vsn = 7, Op = ''u'', SchemaName = ''public'', EventTableName = ''t'',
          Key = [(''id'', Some ''7'')], Fields = []\<rparr>),
       Recv END_OF_QUEUE_SEGMENT_EVENT, TimerFired]) = [TimerFired]"
    by (simp add: processEvents_def processEvents_loop.simps)
  from processEvents_watermark_fixed [of "\<lparr>NUM_EVENT_CHANNELS = 512, MAX_EVENTS_PER_BATCH = 2, TargetDBType = ''yugabytedb'',
        sourceDBType = ''postgresql'', ConvertEvent = (\<lambda>e t f. Inr e),
        ExecuteBatch = (\<lambda>k b. True), MarkEventQueueSegmentAsProcessed_ok = (\<lambda>n. True)\<rparr>" 4 "[Recv (EventMsg \<lparr>Vsn = 5, Op = ''u'', SchemaName = ''public'', EventTableName = ''t'',
          Key = [(''id'', Some ''7'')], Fields = []\<rparr>),
       Recv (EventMsg \<lparr>Vsn = 6, Op = ''u'', SchemaName = ''public'', EventTableName = ''t'',
          Key = [(''id'', Some ''7'')], Fields = []\<rparr>),
       Recv (EventMsg \<lparr>Vsn = 3, Op = ''u'', SchemaName = ''public'', EventTableName = ''t'',
          Key = [(''id'', Some ''7'')], Fields = []\<rparr>),
       Recv (EventMsg \<lparr>Vsn = 7, Op = ''u'', SchemaName = ''public'', EventTableName = ''t'',
          Key = [(''id'', Some ''7'')], Fields = []\<rparr>),
       Recv END_OF_QUEUE_SEGMENT_EVENT, TimerFired]"] run
  show ?thesis by simp
qed

text \<open>
  Claim C1 as stated fails: started with \<^verbatim>\<open>lastAppliedVsn = 0\<close>, the worker applies the
  batch holding VSN 5; its \<^verbatim>\<open>lastAppliedVsn\<close> is still 0, not 5, so the event with VSN 3
  received next is not dropped but executed in a second batch.
\<close>

theorem processEvents_watermark_counterexample:
  "w_executeBatchCalls (processEvents \<lparr>NUM_EVENT_CHANNELS = 512, MAX_EVENTS_PER_BATCH = 2, TargetDBType = ''yugabytedb'',
        sourceDBType = ''postgresql'', ConvertEvent = (\<lambda>e t f. Inr e),
        ExecuteBatch = (\<lambda>k b. True), MarkEventQueueSegmentAsProcessed_ok = (\<lambda>n. True)\<rparr> 0
      [Recv (EventMsg \<lparr>Vsn = 5, Op = ''u'', SchemaName = ''public'', EventTableName = ''t'',
          Key = [(''id'', Some ''7'')], Fields = []\<rparr>), TimerFired,
       Recv (EventMsg \<lparr>Vsn = 3, Op = ''u'', SchemaName = ''public'', EventTableName = ''t'',
          Key = [(''id'', Some ''7'')], Fields = []\<rparr>), Recv END_OF_QUEUE_SEGMENT_EVENT]) = [[\<lparr>Vsn = 5, Op = ''u'', SchemaName = ''public'', EventTableName = ''t'',
          Key = [(''id'', Some ''7'')], Fields = []\<rparr>], [\<lparr>Vsn = 3, Op = ''u'', SchemaName = ''public'', EventTableName = ''t'',
          Key = [(''id'', Some ''7'')], Fields = []\<rparr>]]
   \<and> w_status (processEvents \<lparr>NUM_EVENT_CHANNELS = 512, MAX_EVENTS_PER_BATCH = 2, TargetDBType = ''yugabytedb'',
        sourceDBType = ''postgresql'', ConvertEvent = (\<lambda>e t f. Inr e),
        ExecuteBatch = (\<lambda>k b. True), MarkEventQueueSegmentAsProcessed_ok = (\<lambda>n. True)\<rparr> 0
      [Recv (EventMsg \<lparr>Vsn = 5, Op = ''u'', SchemaName = ''public'', EventTableName = ''t'',
          Key = [(''id'', Some ''7'')], Fields = []\<rparr>), TimerFired,
       Recv (EventMsg \<lparr>Vsn = 3, Op = ''u'', SchemaName = ''public'', EventTableName = ''t'',
          Key = [(''id'', Some ''7'')], Fields = []\<rparr>), Recv END_OF_QUEUE_SEGMENT_EVENT]) = DoneSent
   \<and> w_lastAppliedVsn (processEvents \<lparr>NUM_EVENT_CHANNELS = 512, MAX_EVENTS_PER_BATCH = 2, TargetDBType = ''yugabytedb'',
        sourceDBType = ''postgresql'', ConvertEvent = (\<lambda>e t f. Inr e),
        ExecuteBatch = (\<lambda>k b. True), MarkEventQueueSegmentAsProcessed_ok = (\<lambda>n. True)\<rparr> 0
      [Recv (EventMsg \<lparr>Vsn = 5, Op = ''u'', SchemaName = ''public'', EventTableName = ''t'',
          Key = [(''id'', Some ''7'')], Fields = []\<rparr>), TimerFired,
       Recv (EventMsg \<lparr>Vsn = 3, Op = ''u'', SchemaName = ''public'', EventTableName = ''t'',
          Key = [(''id'', Some ''7'')], Fields = []\<rparr>), Recv END_OF_QUEUE_SEGMENT_EVENT]) = 0
   \<and> Max (Vsn ` set [\<lparr>Vsn = 5, Op = ''u'', SchemaName = ''public'', EventTableName = ''t'',
          Key = [(''id'', Some ''7'')], Fields = []\<rparr>]) = 5"
  by (simp add: processEvents_def processEvents_loop.simps)

subsection \<open>Draining the channels before a segment is marked processed\<close>

lemma and_then_Completed:
  "snd r = Completed \<Longrightarrow> and_then r k = (fst r @ fst k, snd k)"
  by (simp add: and_then_def)

lemma and_then_member:
  "a \<in> set (fst (and_then r k)) \<Longrightarrow> a \<notin> set (fst r) \<Longrightarrow>
   snd r = Completed \<and> a \<in> set (fst k)"
  by (auto simp: and_then_def split: if_splits)

lemma and_then_no_mark:
  "a \<notin> set (fst r) \<Longrightarrow> a \<notin> set (fst k) \<Longrightarrow> a \<notin> set (fst (and_then r k))"
  by (auto simp: and_then_def)

lemma handleEvent_no_mark:
  "MarkEventQueueSegmentAsProcessed k \<notin> set (fst (handleEvent g event len_evChans))"
  by (auto simp: handleEvent_def Let_def split: sum.splits)

lemma read_events_no_mark:
  "MarkEventQueueSegmentAsProcessed k \<notin> set (fst (read_events g len_evChans rs))"
proof (induction g len_evChans rs rule: read_events.induct)
  case (4 g len_evChans event processed rs)
  obtain tr oc where h: "handleEvent g event len_evChans = (tr, oc)" by (cases "handleEvent g event len_evChans")
  with handleEvent_no_mark [of k g event len_evChans]
  have tr: "MarkEventQueueSegmentAsProcessed k \<notin> set tr" by simp
  show ?case
  proof (cases oc)
    case Completed
    show ?thesis
    proof (cases processed)
      case True
      with h Completed tr show ?thesis by simp
    next
      case False
      from "4.IH" [OF h [symmetric] Completed False]
      have "MarkEventQueueSegmentAsProcessed k \<notin> set (fst (read_events g len_evChans rs))" .
      with tr have "MarkEventQueueSegmentAsProcessed k
          \<notin> set (fst (and_then (NextEventCall # tr, Completed) (read_events g len_evChans rs)))"
        by (intro and_then_no_mark) simp_all
      with h Completed False show ?thesis by simp
    qed
  qed (use h tr in simp_all)
qed simp_all

lemma start_processors_no_mark:
  "MarkEventQueueSegmentAsProcessed k \<notin> set (fst (start_processors meta n m is))"
  by (induction "is") (auto simp: and_then_def split: option.splits)

lemma send_end_of_segment_no_mark:
  "MarkEventQueueSegmentAsProcessed k \<notin> set (fst (send_end_of_segment n is))"
  by (induction "is") (auto simp: and_then_def)

lemma wait_for_done_no_mark:
  "MarkEventQueueSegmentAsProcessed k \<notin> set (fst (wait_for_done n is))"
  by (induction "is") (auto simp: and_then_def)

lemma send_end_of_segment_Completed:
  "snd (send_end_of_segment n is) = Completed \<Longrightarrow>
   fst (send_end_of_segment n is) = map (\<lambda>i. ChanSend i END_OF_QUEUE_SEGMENT_EVENT) is"
  by (induction "is") (auto simp: and_then_def split: if_splits)

lemma wait_for_done_Completed:
  "snd (wait_for_done n is) = Completed \<Longrightarrow> fst (wait_for_done n is) = map DoneRecv is"
  by (induction "is") (auto simp: and_then_def split: if_splits)

lemma split_at_unique:
  "x \<notin> set xs \<Longrightarrow> x \<notin> set ys \<Longrightarrow> xs @ a # ys = pre @ x # post \<Longrightarrow>
   pre = xs \<and> a = x \<and> post = ys"
proof (induction xs arbitrary: pre)
  case Nil
  then show ?case by (cases pre) auto
next
  case (Cons y xs)
  then show ?case by (cases pre) auto
qed

lemma and_then_fst_snd:
  "snd r = Completed \<Longrightarrow> fst (and_then r k) = fst r @ fst k \<and> snd (and_then r k) = snd k"
  by (simp add: and_then_def)

text \<open>
  Claim C7. In every run of \<^verbatim>\<open>streamChangesFromSegment\<close>, at whatever moment it is
  observed, \<^verbatim>\<open>MarkEventQueueSegmentAsProcessed\<close> is invoked only for the segment's own
  number and only after the end-of-segment sentinel was sent into each of the
  \<^verbatim>\<open>NUM_EVENT_CHANNELS\<close> channels and a done-signal was received from each of the
  \<^verbatim>\<open>NUM_EVENT_CHANNELS\<close> workers: the actions just before it are the sends to channels
  \<open>0 .. N-1\<close> followed by the receives from done-channels \<open>0 .. N-1\<close>.
\<close>

theorem mark_processed_after_drain:
  assumes split: "fst (streamChangesFromSegment g segment len_evChans len_doneChans meta)
                    = pre @ MarkEventQueueSegmentAsProcessed k # post"
  shows "k = SegmentNum segment
       \<and> (\<exists>before.
            pre = before
              @ map (\<lambda>i. ChanSend i END_OF_QUEUE_SEGMENT_EVENT) [0..<nat (NUM_EVENT_CHANNELS g)]
              @ map DoneRecv [0..<nat (NUM_EVENT_CHANNELS g)])
       \<and> (\<forall>i < nat (NUM_EVENT_CHANNELS g).
            ChanSend i END_OF_QUEUE_SEGMENT_EVENT \<in> set pre \<and> DoneRecv i \<in> set pre)"
proof -
  let ?N = "[0..<nat (NUM_EVENT_CHANNELS g)]"
  let ?mk = "MarkEventQueueSegmentAsProcessed k"
  define A1 where "A1 = ([SegmentOpen], Completed)"
  define A2 where "A2 = start_processors meta len_evChans len_doneChans ?N"
  define A3 where "A3 = (if IsProcessed_on_entry segment then ([], Completed)
             else read_events g len_evChans (NextEvent_results segment))"
  define A4 where "A4 = send_end_of_segment len_evChans ?N"
  define A5 where "A5 = wait_for_done len_doneChans ?N"
  define M where "M = mark_processed g (SegmentNum segment)"
  define R5 where "R5 = and_then A5 M"
  define R4 where "R4 = and_then A4 R5"
  define R3 where "R3 = and_then A3 R4"
  define R2 where "R2 = and_then A2 R3"
  define R1 where "R1 = and_then A1 R2"
  have n1: "?mk \<notin> set (fst A1)" by (simp add: A1_def)
  have n2: "?mk \<notin> set (fst A2)" unfolding A2_def by (rule start_processors_no_mark)
  have n3: "?mk \<notin> set (fst A3)" unfolding A3_def using read_events_no_mark [of k g len_evChans] by simp
  have n4: "?mk \<notin> set (fst A4)" unfolding A4_def by (rule send_end_of_segment_no_mark)
  have n5: "?mk \<notin> set (fst A5)" unfolding A5_def by (rule wait_for_done_no_mark)
  have opened: "Open_error segment = None"
  proof (cases "Open_error segment")
    case (Some err)
    with split have "[SegmentOpen] = pre @ ?mk # post"
      by (simp add: streamChangesFromSegment_def)
    then show ?thesis by (cases pre) simp_all
  qed
  then have T: "fst (with_deferred_close R1) = pre @ ?mk # post"
    using split
    by (simp add: streamChangesFromSegment_def R1_def R2_def R3_def R4_def R5_def
        A1_def A2_def A3_def A4_def A5_def M_def)
  then have "?mk \<in> set (fst (with_deferred_close R1))" by simp
  then have m1: "?mk \<in> set (fst R1)"
    by (auto simp: with_deferred_close_def split: if_splits)
  from and_then_member [OF m1 [unfolded R1_def] n1]
  have c1: "snd A1 = Completed" and m2: "?mk \<in> set (fst R2)" by simp_all
  from and_then_member [OF m2 [unfolded R2_def] n2]
  have c2: "snd A2 = Completed" and m3: "?mk \<in> set (fst R3)" by simp_all
  from and_then_member [OF m3 [unfolded R3_def] n3]
  have c3: "snd A3 = Completed" and m4: "?mk \<in> set (fst R4)" by simp_all
  from and_then_member [OF m4 [unfolded R4_def] n4]
  have c4: "snd A4 = Completed" and m5: "?mk \<in> set (fst R5)" by simp_all
  from and_then_member [OF m5 [unfolded R5_def] n5]
  have c5: "snd A5 = Completed" and m6: "?mk \<in> set (fst M)" by simp_all
  from m6 have k: "k = SegmentNum segment" by (simp add: M_def mark_processed_def)
  have fM: "fst M = [?mk]" and sM: "snd M \<noteq> Waiting"
    by (simp_all add: M_def mark_processed_def k)
  have f4: "fst A4 = map (\<lambda>i. ChanSend i END_OF_QUEUE_SEGMENT_EVENT) ?N"
    using c4 unfolding A4_def by (rule send_end_of_segment_Completed)
  have f5: "fst A5 = map DoneRecv ?N"
    using c5 unfolding A5_def by (rule wait_for_done_Completed)
  have "fst R1 = fst A1 @ fst A2 @ fst A3 @ fst A4 @ fst A5 @ fst M \<and> snd R1 = snd M"
    unfolding R1_def R2_def R3_def R4_def R5_def
    using and_then_fst_snd [OF c1] and_then_fst_snd [OF c2] and_then_fst_snd [OF c3]
      and_then_fst_snd [OF c4] and_then_fst_snd [OF c5]
    by simp
  with sM have "fst (with_deferred_close R1)
      = (fst A1 @ fst A2 @ fst A3 @ fst A4 @ fst A5) @ ?mk # [SegmentClose]"
    by (simp add: with_deferred_close_def fM)
  with T have eq: "(fst A1 @ fst A2 @ fst A3 @ fst A4 @ fst A5) @ ?mk # [SegmentClose]
      = pre @ ?mk # post"
    by simp
  have "?mk \<notin> set (fst A1 @ fst A2 @ fst A3 @ fst A4 @ fst A5)"
    using n1 n2 n3 n4 n5 by simp
  from split_at_unique [OF this _ eq]
  have "pre = fst A1 @ fst A2 @ fst A3 @ fst A4 @ fst A5" by simp
  then have pre: "pre = (fst A1 @ fst A2 @ fst A3)
              @ map (\<lambda>i. ChanSend i END_OF_QUEUE_SEGMENT_EVENT) ?N @ map DoneRecv ?N"
    by (simp add: f4 f5)
  then have ex: "\<exists>before. pre = before
              @ map (\<lambda>i. ChanSend i END_OF_QUEUE_SEGMENT_EVENT) ?N @ map DoneRecv ?N"
    by blast
  have mem: "ChanSend i END_OF_QUEUE_SEGMENT_EVENT \<in> set pre \<and> DoneRecv i \<in> set pre"
    if "i < nat (NUM_EVENT_CHANNELS g)" for i
  proof -
    from that have "i \<in> set ?N" by simp
    then show ?thesis unfolding pre by auto
  qed
  from k ex mem show ?thesis by blast
qed

theorem mark_processed_after_drain_witness:
  "fst (streamChangesFromSegment
       \<lparr>NUM_EVENT_CHANNELS = 2, MAX_EVENTS_PER_BATCH = 2000, TargetDBType = ''yugabytedb'',
        sourceDBType = ''postgresql'', ConvertEvent = (\<lambda>e t f. Inr e),
        ExecuteBatch = (\<lambda>k b. True), MarkEventQueueSegmentAsProcessed_ok = (\<lambda>n. True)\<rparr>
       \<lparr>SegmentNum = 3, Open_error = None, IsProcessed_on_entry = False,
        NextEvent_results = [NextEventResult (Some \<lparr>Vsn = 5, Op = ''u'', SchemaName = ''public'', EventTableName = ''t'',
          Key = [(''id'', Some ''7'')], Fields = []\<rparr>) False, NextEventResult None True]\<rparr>
       2 2 (\<lambda>i. if i = 0 then Some 41 else Some 17))
     = [SegmentOpen, GoProcessEvents 0 41, GoProcessEvents 1 17, NextEventCall,
        ConvertEventCall \<lparr>Vsn = 5, Op = ''u'', SchemaName = ''public'', EventTableName = ''t'',
          Key = [(''id'', Some ''7'')], Fields = []\<rparr> ''t'' True,
        ChanSend 1 (EventMsg \<lparr>Vsn = 5, Op = ''u'', SchemaName = ''public'', EventTableName = ''t'',
          Key = [(''id'', Some ''7'')], Fields = []\<rparr>),
        NextEventCall,
        ChanSend 0 END_OF_QUEUE_SEGMENT_EVENT, ChanSend 1 END_OF_QUEUE_SEGMENT_EVENT,
        DoneRecv 0, DoneRecv 1] @ MarkEventQueueSegmentAsProcessed 3 # [SegmentClose]
   \<and> ChanSend 0 END_OF_QUEUE_SEGMENT_EVENT \<in> set ([SegmentOpen, GoProcessEvents 0 41, GoProcessEvents 1 17, NextEventCall,
        ConvertEventCall \<lparr>Vsn = 5, Op = ''u'', SchemaName = ''public'', EventTableName = ''t'',
          Key = [(''id'', Some ''7'')], Fields = []\<rparr> ''t'' True,
        ChanSend 1 (EventMsg \<lparr>Vsn = 5, Op = ''u'', SchemaName = ''public'', EventTableName = ''t'',
          Key = [(''id'', Some ''7'')], Fields = []\<rparr>),
        NextEventCall,
        ChanSend 0 END_OF_QUEUE_SEGMENT_EVENT, ChanSend 1 END_OF_QUEUE_SEGMENT_EVENT,
        DoneRecv 0, DoneRecv 1])
   \<and> ChanSend 1 END_OF_QUEUE_SEGMENT_EVENT \<in> set ([SegmentOpen, GoProcessEvents 0 41, GoProcessEvents 1 17, NextEventCall,
        ConvertEventCall \<lparr>Vsn = 5, Op = ''u'', SchemaName = ''public'', EventTableName = ''t'',
          Key = [(''id'', Some ''7'')], Fields = []\<rparr> ''t'' True,
        ChanSend 1 (EventMsg \<lparr>Vsn = 5, Op = ''u'', SchemaName = ''public'', EventTableName = ''t'',
          Key = [(''id'', Some ''7'')], Fields = []\<rparr>),
        NextEventCall,
        ChanSend 0 END_OF_QUEUE_SEGMENT_EVENT, ChanSend 1 END_OF_QUEUE_SEGMENT_EVENT,
        DoneRecv 0, DoneRecv 1])
   \<and> DoneRecv 0 \<in> set ([SegmentOpen, GoProcessEvents 0 41, GoProcessEvents 1 17, NextEventCall,
        ConvertEventCall \<lparr>Vsn = 5, Op = ''u'', SchemaName = ''public'', EventTableName = ''t'',
          Key = [(''id'', Some ''7'')], Fields = []\<rparr> ''t'' True,
        ChanSend 1 (EventMsg \<lparr>Vsn = 5, Op = ''u'', SchemaName = ''public'', EventTableName = ''t'',
          Key = [(''id'', Some ''7'')], Fields = []\<rparr>),
        NextEventCall,
        ChanSend 0 END_OF_QUEUE_SEGMENT_EVENT, ChanSend 1 END_OF_QUEUE_SEGMENT_EVENT,
        DoneRecv 0, DoneRecv 1])
   \<and> DoneRecv 1 \<in> set ([SegmentOpen, GoProcessEvents 0 41, GoProcessEvents 1 17, NextEventCall,
        ConvertEventCall \<lparr>Vsn = 5, Op = ''u'', SchemaName = ''public'', EventTableName = ''t'',
          Key = [(''id'', Some ''7'')], Fields = []\<rparr> ''t'' True,
        ChanSend 1 (EventMsg \<lparr>Vsn = 5, Op = ''u'', SchemaName = ''public'', EventTableName = ''t'',
          Key = [(''id'', Some ''7'')], Fields = []\<rparr>),
        NextEventCall,
        ChanSend 0 END_OF_QUEUE_SEGMENT_EVENT, ChanSend 1 END_OF_QUEUE_SEGMENT_EVENT,
        DoneRecv 0, DoneRecv 1])"
proof -
  have run: "fst (streamChangesFromSegment
       \<lparr>NUM_EVENT_CHANNELS = 2, MAX_EVENTS_PER_BATCH = 2000, TargetDBType = ''yugabytedb'',
        sourceDBType = ''postgresql'', ConvertEvent = (\<lambda>e t f. Inr e),
        ExecuteBatch = (\<lambda>k b. True), MarkEventQueueSegmentAsProcessed_ok = (\<lambda>n. True)\<rparr>
       \<lparr>SegmentNum = 3, Open_error = None, IsProcessed_on_entry = False,
        NextEvent_results = [NextEventResult (Some \<lparr>Vsn = 5, Op = ''u'', SchemaName = ''public'', EventTableName = ''t'',
          Key = [(''id'', Some ''7'')], Fields = []\<rparr>) False, NextEventResult None True]\<rparr>
       2 2 (\<lambda>i. if i = 0 then Some 41 else Some 17))
     = [SegmentOpen, GoProcessEvents 0 41, GoProcessEvents 1 17, NextEventCall,
        ConvertEventCall \<lparr>Vsn = 5, Op = ''u'', SchemaName = ''public'', EventTableName = ''t'',
          Key = [(''id'', Some ''7'')], Fields = []\<rparr> ''t'' True,
        ChanSend 1 (EventMsg \<lparr>Vsn = 5, Op = ''u'', SchemaName = ''public'', EventTableName = ''t'',
          Key = [(''id'', Some ''7'')], Fields = []\<rparr>),
        NextEventCall,
        ChanSend 0 END_OF_QUEUE_SEGMENT_EVENT, ChanSend 1 END_OF_QUEUE_SEGMENT_EVENT,
        DoneRecv 0, DoneRecv 1] @ MarkEventQueueSegmentAsProcessed 3 # [SegmentClose]"
    by (simp add: streamChangesFromSegment_def with_deferred_close_def and_then_def
        mark_processed_def handleEvent_def hashEvent_def offset64_def prime64_def
        shouldFormatValues_def YUGABYTEDB_def ORACLE_def upt_conv_Cons)
  from mark_processed_after_drain [OF run] run show ?thesis by simp
qed

subsection \<open>Sliding window of the progress reporter\<close>

lemma wrap64_id: "- (2 ^ 63) \<le> x \<Longrightarrow> x < 2 ^ 63 \<Longrightarrow> wrap64 x = x"
  by (simp add: wrap64_def)

lemma wrap64_range: "- (2 ^ 63) \<le> wrap64 x \<and> wrap64 x < 2 ^ 63"
proof -
  have "0 \<le> (x + 2 ^ 63) mod (2 ^ 64 :: int)" "(x + 2 ^ 63) mod (2 ^ 64 :: int) < 2 ^ 64"
    by simp_all
  then show ?thesis by (simp add: wrap64_def)
qed

lemma wrap64_add_left: "wrap64 (wrap64 a + b) = wrap64 (a + b)"
proof -
  have "wrap64 a + b + 2 ^ 63 = (a + 2 ^ 63) mod 2 ^ 64 + b"
    by (simp add: wrap64_def)
  then have "(wrap64 a + b + 2 ^ 63) mod 2 ^ 64 = ((a + 2 ^ 63) mod 2 ^ 64 + b) mod (2 ^ 64 :: int)"
    by (rule arg_cong)
  also have "\<dots> = (a + 2 ^ 63 + b) mod 2 ^ 64"
    by (rule mod_add_left_eq)
  also have "a + 2 ^ 63 + b = a + b + (2 ^ 63 :: int)" by simp
  finally show ?thesis unfolding wrap64_def by (rule arg_cong)
qed

lemma foldl_wrap64: "foldl (\<lambda>sum v. wrap64 (sum + v)) (wrap64 a) xs = wrap64 (a + sum_list xs)"
proof (induction xs arbitrary: a)
  case Nil
  show ?case by simp
next
  case (Cons x xs)
  have "foldl (\<lambda>sum v. wrap64 (sum + v)) (wrap64 a) (x # xs)
      = foldl (\<lambda>sum v. wrap64 (sum + v)) (wrap64 (a + x)) xs"
    by (simp add: wrap64_add_left)
  also have "\<dots> = wrap64 (a + x + sum_list xs)" by (rule Cons.IH)
  finally show ?case by (simp add: add.assoc)
qed

lemma lo_Sum_eq: "lo_Sum xs = wrap64 (sum_list xs)"
  using foldl_wrap64 [of 0 xs] by (simp add: lo_Sum_def wrap64_def)

lemma sdiv_pos_bounds:
  fixes x n :: int
  assumes "1 \<le> n"
  shows "min 0 x \<le> x sdiv n \<and> x sdiv n \<le> max 0 x"
proof -
  have le: "\<bar>x\<bar> div n \<le> \<bar>x\<bar>"
    using assms by (metis abs_ge_zero div_by_1 zdiv_mono2 zero_less_one)
  have ge: "0 \<le> \<bar>x\<bar> div n"
    using assms by (simp add: pos_imp_zdiv_nonneg_iff)
  have "x sdiv n = sgn x * (\<bar>x\<bar> div n)"
    using assms by (simp add: signed_divide_int_def)
  with le ge show ?thesis by (cases "0 \<le> x") (auto simp: sgn_if)
qed

lemma sdiv_in_range:
  fixes x n B :: int
  assumes "1 \<le> n" "- B \<le> x" "x < B"
  shows "- B \<le> x sdiv n \<and> x sdiv n < B"
  using sdiv_pos_bounds [OF assms(1), of x] assms(2,3) by linarith

lemma sum_list_slice:
  "Suc k \<le> length w \<Longrightarrow> sum_list (take k (drop 1 w)) = (\<Sum>i = 1..k. w ! i)"
proof (induction k)
  case 0
  show ?case by simp
next
  case (Suc k)
  then have len: "k < length (drop 1 w)" by simp
  have "take (Suc k) (drop 1 w) = take k (drop 1 w) @ [drop 1 w ! k]"
    using len by (simp add: take_Suc_conv_app_nth)
  moreover have "drop 1 w ! k = w ! Suc k" using Suc.prems by simp
  ultimately show ?case using Suc by simp
qed

lemma slideWindow_loop_eq:
  "i < length w \<Longrightarrow> slideWindow_loop i w = (w ! 0) # take i w @ drop (Suc i) w"
proof (induction i arbitrary: w)
  case 0
  then show ?case by (cases w) simp_all
next
  case (Suc i)
  let ?w' = "w[Suc i := w ! i]"
  have i: "i < length ?w'" using Suc.prems by simp
  have "slideWindow_loop (Suc i) w = slideWindow_loop i ?w'" by simp
  also have "\<dots> = (?w' ! 0) # take i ?w' @ drop (Suc i) ?w'" by (rule Suc.IH [OF i])
  also have "?w' ! 0 = w ! 0" by simp
  also have "take i ?w' = take i w" by simp
  also have "drop (Suc i) ?w' = (w ! i) # drop (Suc (Suc i)) w"
    using Suc.prems by (simp add: drop_update_swap flip: Cons_nth_drop_Suc upd_conv_take_nth_drop)
  finally show ?case using Suc.prems by (simp add: take_Suc_conv_app_nth)
qed

lemma slideWindow_loop_full:
  assumes "w \<noteq> []"
  shows "(slideWindow_loop (length w - 1) w)[0 := 0] = 0 # butlast w"
proof -
  have "length w - 1 < length w" using assms by (cases w) simp_all
  from slideWindow_loop_eq [OF this]
  have "slideWindow_loop (length w - 1) w = (w ! 0) # take (length w - 1) w"
    using assms by simp
  then show ?thesis by (simp add: butlast_conv_take)
qed

text \<open>
  Claim C9. For every \<open>n \<ge> 1\<close> with \<open>6n + 1 \<le> 61\<close>,
  \<^verbatim>\<open>getIngestionRateForLastNMinutes(n)\<close> returns the sum of slots \<open>1 .. 6n\<close> of the 61-slot
  window divided by \<open>n\<close> (in \<^verbatim>\<open>int64\<close> arithmetic, which is the exact quotient when the
  slots are non-negative counts whose sum fits in \<^verbatim>\<open>int64\<close>); slot 0, the open bucket, is
  excluded. \<^verbatim>\<open>slideWindow\<close> moves every slot one position up, drops the last slot and
  zeroes slot 0.
\<close>

theorem ingestion_rate_window:
  assumes len: "length (eventsSlidingWindow s) = 61"
  shows "(1 \<le> n \<and> 6 * n + 1 \<le> 61 \<longrightarrow>
            getIngestionRateForLastNMinutes s n
              = Inr (wrap64 (\<Sum>i = 1..nat (6 * n). eventsSlidingWindow s ! i) sdiv n)
          \<and> ((\<forall>i \<in> {1..nat (6 * n)}. 0 \<le> eventsSlidingWindow s ! i)
               \<and> (\<Sum>i = 1..nat (6 * n). eventsSlidingWindow s ! i) < 2 ^ 63 \<longrightarrow>
             getIngestionRateForLastNMinutes s n
               = Inr ((\<Sum>i = 1..nat (6 * n). eventsSlidingWindow s ! i) div n)))
       \<and> eventsSlidingWindow (slideWindow s) = 0 # butlast (eventsSlidingWindow s)
       \<and> length (eventsSlidingWindow (slideWindow s)) = 61
       \<and> eventsSlidingWindow (slideWindow s) ! 0 = 0
       \<and> (\<forall>i. 1 \<le> i \<and> i < 61 \<longrightarrow>
             eventsSlidingWindow (slideWindow s) ! i = eventsSlidingWindow s ! (i - 1))"
proof -
  let ?w = "eventsSlidingWindow s"
  have ne: "?w \<noteq> []" using len by auto
  have slide: "eventsSlidingWindow (slideWindow s) = 0 # butlast ?w"
    using slideWindow_loop_full [OF ne] by (simp add: slideWindow_def Let_def)
  have slen: "length (eventsSlidingWindow (slideWindow s)) = 61"
    using len by (simp add: slide)
  have shift: "eventsSlidingWindow (slideWindow s) ! i = ?w ! (i - 1)" if "1 \<le> i" "i < 61" for i
  proof -
    from that obtain j where j: "i = Suc j" by (cases i) simp_all
    with that len show ?thesis by (simp add: slide nth_butlast)
  qed
  have rate: "getIngestionRateForLastNMinutes s n = Inr (wrap64 (\<Sum>i = 1..nat (6 * n). ?w ! i) sdiv n)"
    if n: "1 \<le> n" "6 * n + 1 \<le> 61" for n
  proof -
    let ?S = "\<Sum>i = 1..nat (6 * n). ?w ! i"
    have ws: "wrap64 (6 * n + 1) = 6 * n + 1" using n by (intro wrap64_id) simp_all
    have k: "Suc (nat (6 * n)) \<le> length ?w" using n len by simp
    have "nat (6 * n + 1) - 1 = nat (6 * n)" using n by simp
    then have sum: "lo_Sum (take (nat (6 * n + 1) - 1) (drop 1 ?w)) = wrap64 ?S"
      using sum_list_slice [OF k] by (simp add: lo_Sum_eq)
    from wrap64_range [of ?S]
    have "- (2 ^ 63) \<le> wrap64 ?S" "wrap64 ?S < 2 ^ 63" by simp_all
    from sdiv_in_range [OF n(1) this]
    have "- (2 ^ 63) \<le> wrap64 ?S sdiv n" "wrap64 ?S sdiv n < 2 ^ 63" by simp_all
    then have res: "wrap64 (wrap64 ?S sdiv n) = wrap64 ?S sdiv n" by (rule wrap64_id)
    show ?thesis
      unfolding getIngestionRateForLastNMinutes_def Let_def ws sum res
      using n len by simp
  qed
  have rate_exact: "getIngestionRateForLastNMinutes s n = Inr ((\<Sum>i = 1..nat (6 * n). ?w ! i) div n)"
    if n: "1 \<le> n" "6 * n + 1 \<le> 61"
      and nonneg: "\<forall>i \<in> {1..nat (6 * n)}. 0 \<le> ?w ! i"
      and small: "(\<Sum>i = 1..nat (6 * n). ?w ! i) < 2 ^ 63" for n
  proof -
    let ?S = "\<Sum>i = 1..nat (6 * n). ?w ! i"
    have S0: "0 \<le> ?S" using nonneg by (intro sum_nonneg) simp
    with small have "wrap64 ?S = ?S" by (intro wrap64_id) simp_all
    moreover have "?S sdiv n = ?S div n"
      using S0 n(1) by (simp add: signed_divide_int_def sgn_if)
    ultimately show ?thesis using rate [OF n(1,2)] by simp
  qed
  show ?thesis using slide slen shift rate rate_exact by (simp add: slide)
qed

theorem ingestion_rate_window_witness:
  "length ([100, 6, 12, 18, 24, 30, 36] @ replicate 54 (0::int)) = 61
   \<and> getIngestionRateForLastNMinutes
       \<lparr>totalEventsImported = 226, CurrImportedEvents = 226,
        eventsSlidingWindow = [100, 6, 12, 18, 24, 30, 36] @ replicate 54 0,
        remainingEvents = 0\<rparr> 1 = Inr 126
   \<and> eventsSlidingWindow (slideWindow
       \<lparr>totalEventsImported = 226, CurrImportedEvents = 226,
        eventsSlidingWindow = [100, 6, 12, 18, 24, 30, 36] @ replicate 54 0,
        remainingEvents = 0\<rparr>) = [0, 100, 6, 12, 18, 24, 30, 36] @ replicate 53 0"
proof -
  let ?s = "\<lparr>totalEventsImported = 226, CurrImportedEvents = 226,
        eventsSlidingWindow = [100, 6, 12, 18, 24, 30, 36] @ replicate 54 (0::int),
        remainingEvents = 0\<rparr>"
  have len: "length (eventsSlidingWindow ?s) = 61" by simp
  have S: "(\<Sum>i = 1..nat (6 * 1). eventsSlidingWindow ?s ! i) = 126"
    by (simp add: eval_nat_numeral sum.atLeast_Suc_atMost)
  have b: "butlast ([100, 6, 12, 18, 24, 30, 36] @ replicate 54 (0::int))
         = [100, 6, 12, 18, 24, 30, 36] @ replicate 53 0"
    by (simp add: butlast_append eval_nat_numeral)
  from ingestion_rate_window [OF len, of 1] S b show ?thesis
    by (simp add: wrap64_def)
qed

subsection \<open>classifyTasks\<close>

lemma classifyTasks_loop_Inr:
  "classifyTasks_loop getState tasks ip ns co = Inr (ip', ns', co') \<Longrightarrow>
     ip' = ip @ filter (task_state_is getState FILE_IMPORT_IN_PROGRESS) tasks \<and>
     ns' = ns @ filter (task_state_is getState FILE_IMPORT_NOT_STARTED) tasks \<and>
     co' = co @ filter (task_state_is getState FILE_IMPORT_COMPLETED) tasks \<and>
     (\<forall>t \<in> set tasks.
        task_state_is getState FILE_IMPORT_IN_PROGRESS t \<or>
        task_state_is getState FILE_IMPORT_NOT_STARTED t \<or>
        task_state_is getState FILE_IMPORT_COMPLETED t)"
proof (induction tasks arbitrary: ip ns co)
  case Nil
  then show ?case by simp
next
  case (Cons task tasks)
  show ?case
  proof (cases "getState (FilePath task) (TableName task)")
    case (Inl err)
    with Cons.prems show ?thesis by simp
  next
    case (Inr s)
    show ?thesis
    proof (cases s)
      case FILE_IMPORT_NOT_STARTED
      with Inr Cons.prems Cons.IH [of ip "ns @ [task]" co]
      show ?thesis by (simp add: task_state_is_def)
    next
      case FILE_IMPORT_IN_PROGRESS
      with Inr Cons.prems Cons.IH [of "ip @ [task]" ns co]
      show ?thesis by (simp add: task_state_is_def)
    next
      case FILE_IMPORT_COMPLETED
      with Inr Cons.prems Cons.IH [of ip ns "co @ [task]"]
      show ?thesis by (simp add: task_state_is_def)
    next
      case (FILE_IMPORT_STATE_OTHER x)
      with Inr Cons.prems show ?thesis by simp
    qed
  qed
qed

lemma mset_three_way_filter:
  "\<forall>t \<in> set xs. P t \<or> Q t \<or> R t \<Longrightarrow>
   \<forall>t. \<not> (P t \<and> Q t) \<and> \<not> (P t \<and> R t) \<and> \<not> (Q t \<and> R t) \<Longrightarrow>
   mset (filter P xs) + mset (filter Q xs) + mset (filter R xs) = mset xs"
  by (induction xs) auto

text \<open>
  Claim C10. Whenever \<^verbatim>\<open>classifyTasks\<close> returns without error, the two returned lists
  partition the input (as multisets: every task occurs in \<^verbatim>\<open>pending\<close> and \<^verbatim>\<open>completed\<close>
  together exactly as often as in the input), \<^verbatim>\<open>completed\<close> is exactly the sublist of
  tasks whose state is COMPLETED, no task of \<^verbatim>\<open>pending\<close> is COMPLETED, and \<^verbatim>\<open>pending\<close>
  is the IN_PROGRESS tasks followed by the NOT_STARTED tasks, each in input order.
\<close>

theorem classifyTasks_partition:
  assumes "classifyTasks getState tasks = Inr (pending, completed)"
  shows "mset pending + mset completed = mset tasks
       \<and> completed = filter (task_state_is getState FILE_IMPORT_COMPLETED) tasks
       \<and> pending = filter (task_state_is getState FILE_IMPORT_IN_PROGRESS) tasks
                 @ filter (task_state_is getState FILE_IMPORT_NOT_STARTED) tasks
       \<and> (\<forall>i j. i < length pending \<and> j < length pending
              \<and> task_state_is getState FILE_IMPORT_IN_PROGRESS (pending ! i)
              \<and> task_state_is getState FILE_IMPORT_NOT_STARTED (pending ! j) \<longrightarrow> i < j)"
proof -
  let ?IP = "task_state_is getState FILE_IMPORT_IN_PROGRESS"
  let ?NS = "task_state_is getState FILE_IMPORT_NOT_STARTED"
  let ?CO = "task_state_is getState FILE_IMPORT_COMPLETED"
  from assms obtain ip ns co where
    loop: "classifyTasks_loop getState tasks [] [] [] = Inr (ip, ns, co)"
    and pend: "pending = ip @ ns" and comp: "completed = co"
    by (auto simp: classifyTasks_def split: sum.splits prod.splits)
  from classifyTasks_loop_Inr [OF loop]
  have ip: "ip = filter ?IP tasks" and ns: "ns = filter ?NS tasks"
    and co: "co = filter ?CO tasks"
    and all: "\<forall>t \<in> set tasks. ?IP t \<or> ?NS t \<or> ?CO t"
    by simp_all
  have excl: "\<forall>t. \<not> (?IP t \<and> ?NS t) \<and> \<not> (?IP t \<and> ?CO t) \<and> \<not> (?NS t \<and> ?CO t)"
    by (auto simp: task_state_is_def)
  have part: "mset pending + mset completed = mset tasks"
    using mset_three_way_filter [OF all excl] by (simp add: pend comp ip ns co)
  have order: "i < j"
    if "i < length pending" "j < length pending" "?IP (pending ! i)" "?NS (pending ! j)"
    for i j
  proof (rule ccontr)
    assume "\<not> i < j"
    then have ji: "j \<le> i" by simp
    have "length ip \<le> j"
    proof (rule ccontr)
      assume "\<not> length ip \<le> j"
      then have "j < length ip" by simp
      then have "pending ! j \<in> set ip" by (simp add: pend nth_append)
      then have "?IP (pending ! j)" by (simp add: ip)
      with that(4) show False by (simp add: task_state_is_def)
    qed
    with ji have "length ip \<le> i" by simp
    with that(1) have "pending ! i \<in> set ns" by (simp add: pend nth_append)
    then have "?NS (pending ! i)" by (simp add: ns)
    with that(3) show False by (simp add: task_state_is_def)
  qed
  show ?thesis using part comp co pend ip ns order by blast
qed

theorem classifyTasks_partition_witness:
  "classifyTasks
     (\<lambda>p t. if p = ''a.csv'' then Inr FILE_IMPORT_COMPLETED
            else if p = ''b.csv'' then Inr FILE_IMPORT_NOT_STARTED
            else Inr FILE_IMPORT_IN_PROGRESS)
     [\<lparr>ID = 0, FilePath = ''a.csv'', TableName = ''a''\<rparr>,
      \<lparr>ID = 1, FilePath = ''b.csv'', TableName = ''b''\<rparr>,
      \<lparr>ID = 2, FilePath = ''c.csv'', TableName = ''c''\<rparr>]
   = Inr ([\<lparr>ID = 2, FilePath = ''c.csv'', TableName = ''c''\<rparr>,
           \<lparr>ID = 1, FilePath = ''b.csv'', TableName = ''b''\<rparr>],
          [\<lparr>ID = 0, FilePath = ''a.csv'', TableName = ''a''\<rparr>])
   \<and> mset [\<lparr>ID = 2, FilePath = ''c.csv'', TableName = ''c''\<rparr>,
           \<lparr>ID = 1, FilePath = ''b.csv'', TableName = ''b''\<rparr>]
     + mset [\<lparr>ID = 0, FilePath = ''a.csv'', TableName = ''a''\<rparr>]
     = mset [\<lparr>ID = 0, FilePath = ''a.csv'', TableName = ''a''\<rparr>,
      \<lparr>ID = 1, FilePath = ''b.csv'', TableName = ''b''\<rparr>,
      \<lparr>ID = 2, FilePath = ''c.csv'', TableName = ''c''\<rparr>]"
proof -
  have run: "classifyTasks
     (\<lambda>p t. if p = ''a.csv'' then Inr FILE_IMPORT_COMPLETED
            else if p = ''b.csv'' then Inr FILE_IMPORT_NOT_STARTED
            else Inr FILE_IMPORT_IN_PROGRESS)
     [\<lparr>ID = 0, FilePath = ''a.csv'', TableName = ''a''\<rparr>,
      \<lparr>ID = 1, FilePath = ''b.csv'', TableName = ''b''\<rparr>,
      \<lparr>ID = 2, FilePath = ''c.csv'', TableName = ''c''\<rparr>]
   = Inr ([\<lparr>ID = 2, FilePath = ''c.csv'', TableName = ''c''\<rparr>,
           \<lparr>ID = 1, FilePath = ''b.csv'', TableName = ''b''\<rparr>],
          [\<lparr>ID = 0, FilePath = ''a.csv'', TableName = ''a''\<rparr>])"
    by (simp add: classifyTasks_def)
  from classifyTasks_partition [OF run] run show ?thesis by blast
qed

subsection \<open>importBatch: pending mark, bounded retries, done mark\<close>

lemma sleep_cap:
  fixes s M j :: int
  shows "1 \<le> j \<Longrightarrow> min (min (s + 10) M + 10 * j) M = min (s + 10 * (j + 1)) M"
  by (simp add: min_def)

lemma importBatch_loop_stop:
  "\<not> int a < COPY_MAX_RETRY_COUNT env \<Longrightarrow> importBatch_loop env a s err = ([], err)"
  by (simp add: importBatch_loop.simps)

lemma importBatch_loop_last:
  "int a < COPY_MAX_RETRY_COUNT env \<Longrightarrow> \<not> retryable_failure env a \<Longrightarrow>
   importBatch_loop env a s err = ([ImportBatchCall a], tdb_ImportBatch env a)"
  by (auto simp: importBatch_loop.simps [of env a] retryable_failure_def split: option.splits)

lemma importBatch_loop_retry:
  "int a < COPY_MAX_RETRY_COUNT env \<Longrightarrow> retryable_failure env a \<Longrightarrow>
   importBatch_loop env a s err =
     (ImportBatchCall a # SleepSeconds (min (s + 10) (MAX_SLEEP_SECOND env))
        # fst (importBatch_loop env (Suc a) (min (s + 10) (MAX_SLEEP_SECOND env)) (tdb_ImportBatch env a)),
      snd (importBatch_loop env (Suc a) (min (s + 10) (MAX_SLEEP_SECOND env)) (tdb_ImportBatch env a)))"
  by (auto simp: importBatch_loop.simps [of env a] retryable_failure_def min_def split: option.splits)

lemma importBatch_loop_closed:
  "int a < COPY_MAX_RETRY_COUNT env \<Longrightarrow>
   \<exists>n. a < n \<and> int n \<le> COPY_MAX_RETRY_COUNT env
     \<and> (\<forall>i. a \<le> i \<and> Suc i < n \<longrightarrow> retryable_failure env i)
     \<and> (int n < COPY_MAX_RETRY_COUNT env \<longrightarrow> \<not> retryable_failure env (n - 1))
     \<and> importBatch_loop env a s err =
         (concat (map (retry_round env a s) [a..<n - 1])
            @ ImportBatchCall (n - 1)
            # (if retryable_failure env (n - 1)
               then [SleepSeconds (min (s + 10 * (int n - int a)) (MAX_SLEEP_SECOND env))] else []),
          tdb_ImportBatch env (n - 1))"
proof (induction "nat (COPY_MAX_RETRY_COUNT env) - a" arbitrary: a s err)
  case 0
  then show ?case by simp
next
  case (Suc k)
  let ?M = "MAX_SLEEP_SECOND env"
  show ?case
  proof (cases "retryable_failure env a")
    case False
    with Suc.prems importBatch_loop_last [OF Suc.prems False, of s err]
    have "a < Suc a \<and> int (Suc a) \<le> COPY_MAX_RETRY_COUNT env
     \<and> (\<forall>i. a \<le> i \<and> Suc i < Suc a \<longrightarrow> retryable_failure env i)
     \<and> (int (Suc a) < COPY_MAX_RETRY_COUNT env \<longrightarrow> \<not> retryable_failure env (Suc a - 1))
     \<and> importBatch_loop env a s err =
         (concat (map (retry_round env a s) [a..<Suc a - 1])
            @ ImportBatchCall (Suc a - 1)
            # (if retryable_failure env (Suc a - 1)
               then [SleepSeconds (min (s + 10 * (int (Suc a) - int a)) ?M)] else []),
          tdb_ImportBatch env (Suc a - 1))"
      by auto
    then show ?thesis by blast
  next
    case True
    let ?s' = "min (s + 10) ?M"
    note step = importBatch_loop_retry [OF Suc.prems True, of s err]
    show ?thesis
    proof (cases "int (Suc a) < COPY_MAX_RETRY_COUNT env")
      case False
      from importBatch_loop_stop [OF False] step
      have "importBatch_loop env a s err
          = ([ImportBatchCall a, SleepSeconds ?s'], tdb_ImportBatch env a)"
        by simp
      with True False Suc.prems
      have "a < Suc a \<and> int (Suc a) \<le> COPY_MAX_RETRY_COUNT env
       \<and> (\<forall>i. a \<le> i \<and> Suc i < Suc a \<longrightarrow> retryable_failure env i)
       \<and> (int (Suc a) < COPY_MAX_RETRY_COUNT env \<longrightarrow> \<not> retryable_failure env (Suc a - 1))
       \<and> importBatch_loop env a s err =
           (concat (map (retry_round env a s) [a..<Suc a - 1])
              @ ImportBatchCall (Suc a - 1)
              # (if retryable_failure env (Suc a - 1)
                 then [SleepSeconds (min (s + 10 * (int (Suc a) - int a)) ?M)] else []),
            tdb_ImportBatch env (Suc a - 1))"
        by auto
      then show ?thesis by blast
    next
      case more: True
      from Suc.hyps(2) have k: "k = nat (COPY_MAX_RETRY_COUNT env) - Suc a" by simp
      from Suc.hyps(1) [OF k more, of ?s' "tdb_ImportBatch env a"]
      obtain n where n: "Suc a < n" "int n \<le> COPY_MAX_RETRY_COUNT env"
        and retr: "\<forall>i. Suc a \<le> i \<and> Suc i < n \<longrightarrow> retryable_failure env i"
        and early: "int n < COPY_MAX_RETRY_COUNT env \<longrightarrow> \<not> retryable_failure env (n - 1)"
        and rec: "importBatch_loop env (Suc a) ?s' (tdb_ImportBatch env a) =
           (concat (map (retry_round env (Suc a) ?s') [Suc a..<n - 1])
              @ ImportBatchCall (n - 1)
              # (if retryable_failure env (n - 1)
                 then [SleepSeconds (min (?s' + 10 * (int n - int (Suc a))) ?M)] else []),
            tdb_ImportBatch env (n - 1))"
        by blast
      have rounds: "retry_round env (Suc a) ?s' i = retry_round env a s i" if "Suc a \<le> i" for i
      proof -
        from that have "1 \<le> int i - int a" by simp
        from sleep_cap [OF this, of s ?M]
        show ?thesis by (simp add: retry_round_def algebra_simps)
      qed
      have "1 \<le> int n - int (Suc a)" using n(1) by simp
      from sleep_cap [OF this, of s ?M]
      have final: "min (?s' + 10 * (int n - int (Suc a))) ?M = min (s + 10 * (int n - int a)) ?M"
        by (simp add: algebra_simps)
      have upt: "[a..<n - 1] = a # [Suc a..<n - 1]"
        using n(1) by (simp add: upt_conv_Cons)
      have first: "retry_round env a s a = [ImportBatchCall a, SleepSeconds ?s']"
        by (simp add: retry_round_def)
      have mapeq: "map (retry_round env (Suc a) ?s') [Suc a..<n - 1]
          = map (retry_round env a s) [Suc a..<n - 1]"
        using rounds by (intro map_cong) simp_all
      have "importBatch_loop env a s err =
           (ImportBatchCall a # SleepSeconds ?s'
              # (concat (map (retry_round env a s) [Suc a..<n - 1])
                 @ ImportBatchCall (n - 1)
                 # (if retryable_failure env (n - 1)
                    then [SleepSeconds (min (s + 10 * (int n - int a)) ?M)] else [])),
            tdb_ImportBatch env (n - 1))"
        unfolding step rec mapeq final by simp
      then have run: "importBatch_loop env a s err =
           (concat (map (retry_round env a s) [a..<n - 1])
              @ ImportBatchCall (n - 1)
              # (if retryable_failure env (n - 1)
                 then [SleepSeconds (min (s + 10 * (int n - int a)) ?M)] else []),
            tdb_ImportBatch env (n - 1))"
        unfolding upt by (simp add: first)
      have retr': "\<forall>i. a \<le> i \<and> Suc i < n \<longrightarrow> retryable_failure env i"
      proof (intro allI impI)
        fix i assume i: "a \<le> i \<and> Suc i < n"
        show "retryable_failure env i"
        proof (cases "i = a")
          case True
          with \<open>retryable_failure env a\<close> show ?thesis by simp
        next
          case False
          with i retr show ?thesis by simp
        qed
      qed
      from n have "a < n" by simp
      with n(2) retr' early run show ?thesis by blast
    qed
  qed
qed

lemma attempts_of_append: "attempts_of (xs @ ys) = attempts_of xs @ attempts_of ys"
  by (induction xs rule: attempts_of.induct) simp_all

lemma sleeps_of_append: "sleeps_of (xs @ ys) = sleeps_of xs @ sleeps_of ys"
  by (induction xs rule: sleeps_of.induct) simp_all

lemma attempts_of_rounds: "attempts_of (concat (map (retry_round env a s) is)) = is"
  by (induction "is") (simp_all add: retry_round_def)

lemma sleeps_of_rounds:
  "sleeps_of (concat (map (retry_round env a s) is))
     = map (\<lambda>i. min (s + 10 * (int i - int a + 1)) (MAX_SLEEP_SECOND env)) is"
  by (induction "is") (simp_all add: retry_round_def)

lemma rounds_no_mark:
  "MarkDoneCall \<notin> set (concat (map (retry_round env a s) is))
   \<and> MarkPendingCall \<notin> set (concat (map (retry_round env a s) is))"
  by (induction "is") (simp_all add: retry_round_def)

text \<open>
  Claim C5. With \<^verbatim>\<open>COPY_MAX_RETRY_COUNT\<close> at least 1, \<^verbatim>\<open>importBatch\<close> calls
  \<^verbatim>\<open>MarkPending\<close> first and once. If that succeeds it attempts \<^verbatim>\<open>tdb.ImportBatch\<close> \<open>n\<close>
  times, attempts \<open>0 .. n-1\<close>, with \<open>1 \<le> n \<le> COPY_MAX_RETRY_COUNT\<close>: every attempt before
  the last failed with a retryable error, and the loop stopped before
  \<^verbatim>\<open>COPY_MAX_RETRY_COUNT\<close> only on a success or a non-retryable error. The \<open>j\<close>-th sleep
  (from 1), which follows the \<open>j\<close>-th retryable failure, lasts \<open>min (10 j) MAX_SLEEP_SECOND\<close>
  seconds. \<^verbatim>\<open>MarkDone\<close> is called iff the last attempt returned no error.
\<close>

theorem importBatch_protocol:
  assumes max: "1 \<le> COPY_MAX_RETRY_COUNT env"
  shows "(\<exists>rest. importBatch env = MarkPendingCall # rest \<and> MarkPendingCall \<notin> set rest)
       \<and> (MarkPending_error env \<longrightarrow> importBatch env = [MarkPendingCall, UtilsErrExit])
       \<and> (\<not> MarkPending_error env \<longrightarrow>
            (\<exists>n. 1 \<le> n \<and> int n \<le> COPY_MAX_RETRY_COUNT env
               \<and> attempts_of (importBatch env) = [0..<n]
               \<and> (\<forall>i. Suc i < n \<longrightarrow> retryable_failure env i)
               \<and> (int n < COPY_MAX_RETRY_COUNT env \<longrightarrow> \<not> retryable_failure env (n - 1))
               \<and> importBatch env =
                   MarkPendingCall # concat (map (retry_round env 0 0) [0..<n - 1])
                     @ ImportBatchCall (n - 1)
                     # (if retryable_failure env (n - 1)
                        then [SleepSeconds (min (10 * int n) (MAX_SLEEP_SECOND env)), UtilsErrExit]
                        else if tdb_ImportBatch env (n - 1) = None
                        then MarkDoneCall # (if MarkDone_error env then [UtilsErrExit] else [])
                        else [UtilsErrExit])
               \<and> sleeps_of (importBatch env) =
                   map (\<lambda>j. min (10 * (int j + 1)) (MAX_SLEEP_SECOND env))
                     [0..<(if retryable_failure env (n - 1) then n else n - 1)]
               \<and> (MarkDoneCall \<in> set (importBatch env) \<longleftrightarrow> tdb_ImportBatch env (n - 1) = None)))"
proof -
  let ?M = "MAX_SLEEP_SECOND env"
  let ?tr = "importBatch env"
  have pending_fail: "?tr = [MarkPendingCall, UtilsErrExit]" if "MarkPending_error env"
    using that by (simp add: importBatch_def)
  have main: "\<exists>n. 1 \<le> n \<and> int n \<le> COPY_MAX_RETRY_COUNT env
               \<and> attempts_of ?tr = [0..<n]
               \<and> (\<forall>i. Suc i < n \<longrightarrow> retryable_failure env i)
               \<and> (int n < COPY_MAX_RETRY_COUNT env \<longrightarrow> \<not> retryable_failure env (n - 1))
               \<and> ?tr =
                   MarkPendingCall # concat (map (retry_round env 0 0) [0..<n - 1])
                     @ ImportBatchCall (n - 1)
                     # (if retryable_failure env (n - 1)
                        then [SleepSeconds (min (10 * int n) ?M), UtilsErrExit]
                        else if tdb_ImportBatch env (n - 1) = None
                        then MarkDoneCall # (if MarkDone_error env then [UtilsErrExit] else [])
                        else [UtilsErrExit])
               \<and> sleeps_of ?tr =
                   map (\<lambda>j. min (10 * (int j + 1)) ?M)
                     [0..<(if retryable_failure env (n - 1) then n else n - 1)]
               \<and> (MarkDoneCall \<in> set ?tr \<longleftrightarrow> tdb_ImportBatch env (n - 1) = None)"
    if ok: "\<not> MarkPending_error env"
  proof -
    from max have "int 0 < COPY_MAX_RETRY_COUNT env" by simp
    from importBatch_loop_closed [OF this, of 0 None]
    obtain n where n: "0 < n" "int n \<le> COPY_MAX_RETRY_COUNT env"
      and retr: "\<forall>i. Suc i < n \<longrightarrow> retryable_failure env i"
      and early: "int n < COPY_MAX_RETRY_COUNT env \<longrightarrow> \<not> retryable_failure env (n - 1)"
      and loop: "importBatch_loop env 0 0 None =
         (concat (map (retry_round env 0 0) [0..<n - 1])
            @ ImportBatchCall (n - 1)
            # (if retryable_failure env (n - 1)
               then [SleepSeconds (min (0 + 10 * (int n - int 0)) ?M)] else []),
          tdb_ImportBatch env (n - 1))"
      by auto
    let ?rounds = "concat (map (retry_round env 0 0) [0..<n - 1])"
    have some: "tdb_ImportBatch env (n - 1) \<noteq> None" if "retryable_failure env (n - 1)"
      using that by (auto simp: retryable_failure_def split: option.splits)
    have tr: "?tr = MarkPendingCall # ?rounds
                     @ ImportBatchCall (n - 1)
                     # (if retryable_failure env (n - 1)
                        then [SleepSeconds (min (10 * int n) ?M), UtilsErrExit]
                        else if tdb_ImportBatch env (n - 1) = None
                        then MarkDoneCall # (if MarkDone_error env then [UtilsErrExit] else [])
                        else [UtilsErrExit])"
      using ok some by (auto simp: importBatch_def loop split: option.splits)
    have upt: "[0..<n] = [0..<n - 1] @ [n - 1]"
      using n(1) by (metis Suc_diff_1 upt_Suc_append zero_le)
    have att: "attempts_of ?tr = [0..<n]"
      unfolding tr upt by (simp add: attempts_of_append attempts_of_rounds)
    have sl: "sleeps_of ?tr = map (\<lambda>j. min (10 * (int j + 1)) ?M)
                     [0..<(if retryable_failure env (n - 1) then n else n - 1)]"
    proof (cases "retryable_failure env (n - 1)")
      case True
      have "int (n - 1) + 1 = int n" using n(1) by simp
      then have "min (10 * int n) ?M = min (10 * (int (n - 1) + 1)) ?M" by simp
      with True show ?thesis
        unfolding tr by (simp add: sleeps_of_append sleeps_of_rounds upt)
    next
      case False
      then show ?thesis
        unfolding tr by (simp add: sleeps_of_append sleeps_of_rounds)
    qed
    have md: "MarkDoneCall \<in> set ?tr \<longleftrightarrow> tdb_ImportBatch env (n - 1) = None"
      unfolding tr using rounds_no_mark [of env 0 0 "[0..<n - 1]"] some by auto
    from n retr early tr att sl md show ?thesis
      by (intro exI [of _ n]) simp
  qed
  have first: "\<exists>rest. ?tr = MarkPendingCall # rest \<and> MarkPendingCall \<notin> set rest"
  proof (cases "MarkPending_error env")
    case True
    from pending_fail [OF this] show ?thesis by simp
  next
    case False
    from main [OF this] obtain n where tr: "?tr =
                   MarkPendingCall # concat (map (retry_round env 0 0) [0..<n - 1])
                     @ ImportBatchCall (n - 1)
                     # (if retryable_failure env (n - 1)
                        then [SleepSeconds (min (10 * int n) ?M), UtilsErrExit]
                        else if tdb_ImportBatch env (n - 1) = None
                        then MarkDoneCall # (if MarkDone_error env then [UtilsErrExit] else [])
                        else [UtilsErrExit])"
      by blast
    show ?thesis
      unfolding tr using rounds_no_mark [of env 0 0 "[0..<n - 1]"] by simp
  qed
  from first pending_fail main show ?thesis by blast
qed

theorem importBatch_protocol_witness:
  "(1::int) \<le> 10
   \<and> importBatch \<lparr>COPY_MAX_RETRY_COUNT = 10, MAX_SLEEP_SECOND = 25, MarkPending_error = False,
        tdb_ImportBatch = (\<lambda>k. if k < 4 then Some ''connection reset'' else None),
        IsNonRetryableCopyError = (\<lambda>e. e = ''invalid input syntax''), MarkDone_error = False\<rparr>
     = [MarkPendingCall, ImportBatchCall 0, SleepSeconds 10, ImportBatchCall 1, SleepSeconds 20,
        ImportBatchCall 2, SleepSeconds 25, ImportBatchCall 3, SleepSeconds 25,
        ImportBatchCall 4, MarkDoneCall]
   \<and> (\<exists>rest. importBatch \<lparr>COPY_MAX_RETRY_COUNT = 10, MAX_SLEEP_SECOND = 25, MarkPending_error = False,
        tdb_ImportBatch = (\<lambda>k. if k < 4 then Some ''connection reset'' else None),
        IsNonRetryableCopyError = (\<lambda>e. e = ''invalid input syntax''), MarkDone_error = False\<rparr> = MarkPendingCall # rest \<and> MarkPendingCall \<notin> set rest)"
proof -
  have run: "importBatch \<lparr>COPY_MAX_RETRY_COUNT = 10, MAX_SLEEP_SECOND = 25, MarkPending_error = False,
        tdb_ImportBatch = (\<lambda>k. if k < 4 then Some ''connection reset'' else None),
        IsNonRetryableCopyError = (\<lambda>e. e = ''invalid input syntax''), MarkDone_error = False\<rparr>
     = [MarkPendingCall, ImportBatchCall 0, SleepSeconds 10, ImportBatchCall 1, SleepSeconds 20,
        ImportBatchCall 2, SleepSeconds 25, ImportBatchCall 3, SleepSeconds 25,
        ImportBatchCall 4, MarkDoneCall]"
    by (simp add: importBatch_def importBatch_loop.simps)
  have "1 \<le> COPY_MAX_RETRY_COUNT \<lparr>COPY_MAX_RETRY_COUNT = 10, MAX_SLEEP_SECOND = 25, MarkPending_error = False,
        tdb_ImportBatch = (\<lambda>k. if k < 4 then Some ''connection reset'' else None),
        IsNonRetryableCopyError = (\<lambda>e. e = ''invalid input syntax''), MarkDone_error = False\<rparr>" by simp
  from importBatch_protocol [OF this] run show ?thesis by simp
qed

subsection \<open>splitFilesForTable: a last line without newline\<close>

lemma split_iteration_line:
  "split_iteration env st line None nbytes = Inr st' \<Longrightarrow>
   s_numLinesTaken st' = s_numLinesTaken st + 1"
  by (auto simp: split_iteration_def Let_def split: sum.splits option.splits if_splits)

lemma split_iteration_eof:
  assumes "split_iteration env st line (Some EOF) nbytes = Inr st'" and "line \<noteq> ''''"
  shows "s_numLinesTaken st' = s_numLinesTaken st + 1
       \<and> s_submitted st' \<noteq> []
       \<and> sb_isLastBatch (last (s_submitted st'))
       \<and> sb_OffsetEnd (last (s_submitted st')) = s_numLinesTaken st + 1
       \<and> (\<exists>c. ConvertRow env line = Inr c
              \<and> sb_records (last (s_submitted st')) \<noteq> []
              \<and> last (sb_records (last (s_submitted st'))) = c)"
  using assms
  by (auto simp: split_iteration_def Let_def split: sum.splits option.splits if_splits)

lemma split_loop_eof:
  assumes "split_loop env st ls fline EOF fbytes = Inr st'" and "fline \<noteq> ''''"
  shows "s_numLinesTaken st' = s_numLinesTaken st + int (length ls) + 1
       \<and> s_submitted st' \<noteq> []
       \<and> sb_isLastBatch (last (s_submitted st'))
       \<and> sb_OffsetEnd (last (s_submitted st')) = s_numLinesTaken st + int (length ls) + 1
       \<and> (\<exists>c. ConvertRow env fline = Inr c
              \<and> sb_records (last (s_submitted st')) \<noteq> []
              \<and> last (sb_records (last (s_submitted st'))) = c)"
  using assms
proof (induction ls arbitrary: st)
  case Nil
  from split_iteration_eof [of env st fline fbytes st'] Nil show ?case by simp
next
  case (Cons l ls)
  obtain line nbytes where l: "l = (line, nbytes)" by (cases l)
  from Cons.prems(1) l obtain st1 where
    it: "split_iteration env st line None nbytes = Inr st1"
    and rest: "split_loop env st1 ls fline EOF fbytes = Inr st'"
    by (auto split: sum.splits)
  from split_iteration_line [OF it] Cons.IH [OF rest Cons.prems(2)]
  show ?case by simp
qed

lemma split_iteration_total:
  assumes "no_split_errors env" and "readLineErr = None \<or> readLineErr = Some EOF"
  shows "\<exists>st'. split_iteration env st line readLineErr nbytes = Inr st'"
proof -
  from assms(1) obtain c where c: "ConvertRow env line = Inr c"
    unfolding no_split_errors_def by blast
  from assms(1) have w: "\<exists>w. (case s_batchWriter st of Some w \<Rightarrow> Inr w
      | None \<Rightarrow> new_batch_writer env (s_batchNum st)) = Inr w"
    by (auto simp: no_split_errors_def new_batch_writer_def split: option.splits)
  then obtain w where w: "(case s_batchWriter st of Some w \<Rightarrow> Inr w
      | None \<Rightarrow> new_batch_writer env (s_batchNum st)) = Inr w" by blast
  from assms c show ?thesis
    unfolding split_iteration_def w
    by (auto simp: no_split_errors_def Let_def split: option.splits read_err.splits)
qed

lemma split_loop_total:
  assumes "no_split_errors env"
  shows "\<exists>st'. split_loop env st ls fline EOF fbytes = Inr st'"
proof (induction ls arbitrary: st)
  case Nil
  from split_iteration_total [OF assms, of "Some EOF" st fline fbytes] show ?case by simp
next
  case (Cons l ls)
  obtain line nbytes where l: "l = (line, nbytes)" by (cases l)
  from split_iteration_total [OF assms, of None st line nbytes]
  obtain st1 where "split_iteration env st line None nbytes = Inr st1" by auto
  with Cons.IH [of st1] l show ?case by simp
qed

text \<open>
  Claim C6. When the last read of the data file returns \<^verbatim>\<open>io.EOF\<close> together with a
  non-empty line (a last line without trailing newline), that line counts: whenever
  \<^verbatim>\<open>splitFilesForTable\<close> ends without \<^verbatim>\<open>utils.ErrExit\<close>, \<^verbatim>\<open>numLinesTaken\<close> is
  \<^verbatim>\<open>lastOffset\<close> plus the number of lines read before plus one, the last batch submitted
  is the last batch, its \<^verbatim>\<open>offsetEnd\<close> is that same number, and the last record written to
  it is the converted line. And it does end so when no file operation fails and every
  line converts.
\<close>

theorem last_line_without_newline_counted:
  assumes eof: "final_err dataFile = EOF" and nonempty: "final_line dataFile \<noteq> ''''"
  shows "(\<forall>st. splitFilesForTable env dataFile lastBatchNumber lastOffset = Inr st \<longrightarrow>
            s_numLinesTaken st = lastOffset + int (length (lines_read dataFile)) + 1
          \<and> s_submitted st \<noteq> []
          \<and> sb_isLastBatch (last (s_submitted st))
          \<and> sb_OffsetEnd (last (s_submitted st))
              = lastOffset + int (length (lines_read dataFile)) + 1
          \<and> (\<exists>c. ConvertRow env (final_line dataFile) = Inr c
                 \<and> sb_records (last (s_submitted st)) \<noteq> []
                 \<and> last (sb_records (last (s_submitted st))) = c))
       \<and> (no_split_errors env \<longrightarrow>
            (\<exists>st. splitFilesForTable env dataFile lastBatchNumber lastOffset = Inr st))"
proof -
  let ?st0 = "\<lparr>s_batchNum = lastBatchNumber + 1, s_numLinesTaken = lastOffset,
              s_batchWriter = None, s_bytesRead = bytes_after_skip dataFile, s_submitted = []\<rparr>"
  have part: "s_numLinesTaken st = lastOffset + int (length (lines_read dataFile)) + 1
          \<and> s_submitted st \<noteq> []
          \<and> sb_isLastBatch (last (s_submitted st))
          \<and> sb_OffsetEnd (last (s_submitted st))
              = lastOffset + int (length (lines_read dataFile)) + 1
          \<and> (\<exists>c. ConvertRow env (final_line dataFile) = Inr c
                 \<and> sb_records (last (s_submitted st)) \<noteq> []
                 \<and> last (sb_records (last (s_submitted st))) = c)"
    if "splitFilesForTable env dataFile lastBatchNumber lastOffset = Inr st" for st
  proof -
    from that eof have "split_loop env ?st0 (lines_read dataFile) (final_line dataFile) EOF
        (final_bytes dataFile) = Inr st"
      by (simp add: splitFilesForTable_def split: if_splits)
    from split_loop_eof [OF this nonempty] show ?thesis by simp
  qed
  have total: "\<exists>st. splitFilesForTable env dataFile lastBatchNumber lastOffset = Inr st"
    if ok: "no_split_errors env"
  proof -
    from ok have "\<not> Open_DataFile_error env" by (simp add: no_split_errors_def)
    with split_loop_total [OF ok, of ?st0 "lines_read dataFile" "final_line dataFile"
        "final_bytes dataFile"] eof
    show ?thesis by (simp add: splitFilesForTable_def)
  qed
  from part total show ?thesis by blast
qed

theorem last_line_without_newline_counted_witness:
  "splitFilesForTable
     \<lparr>batchSize = 2, MaxBatchSizeInBytes = 1000, file_header = ''id,name'',
      FileFormat_is_CSV = True, ConvertRow = (\<lambda>l. Inr (l @ '';'')),
      NumRecordsWritten_after = (\<lambda>rs. int (length rs)),
      Open_DataFile_error = False, BatchWriter_Init_error = (\<lambda>n. False),
      WriteHeader_error = (\<lambda>n. False), WriteRecord_error = (\<lambda>n l. False),
      Done_error = (\<lambda>n. False)\<rparr>
     \<lparr>bytes_after_skip = 0, lines_read = [(''1,a'', 4), (''2,b'', 4)],
      final_line = ''3,c'', final_err = EOF, final_bytes = 3\<rparr> 0 0
   = Inr \<lparr>s_batchNum = 2, s_numLinesTaken = 3, s_batchWriter = None, s_bytesRead = 0,
          s_submitted =
            [\<lparr>sb_Number = 1, sb_isLastBatch = False, sb_OffsetEnd = 2, sb_ByteCount = 8,
              sb_header = Some ''id,name'', sb_records = [''1,a;'', ''2,b;'']\<rparr>,
             \<lparr>sb_Number = 2, sb_isLastBatch = True, sb_OffsetEnd = 3, sb_ByteCount = 3,
              sb_header = Some ''id,name'', sb_records = [''3,c;'']\<rparr>]\<rparr>"
proof -
  let ?env = "\<lparr>batchSize = 2, MaxBatchSizeInBytes = 1000, file_header = ''id,name'',
      FileFormat_is_CSV = True, ConvertRow = (\<lambda>l. Inr (l @ '';'')),
      NumRecordsWritten_after = (\<lambda>rs. int (length rs)),
      Open_DataFile_error = False, BatchWriter_Init_error = (\<lambda>n. False),
      WriteHeader_error = (\<lambda>n. False), WriteRecord_error = (\<lambda>n l. False),
      Done_error = (\<lambda>n. False)\<rparr>"
  let ?file = "\<lparr>bytes_after_skip = 0, lines_read = [(''1,a'', 4), (''2,b'', 4)],
      final_line = ''3,c'', final_err = EOF, final_bytes = 3\<rparr>"
  have eof: "final_err ?file = EOF" and ne: "final_line ?file \<noteq> ''''" by simp_all
  have ok: "no_split_errors ?env" by (simp add: no_split_errors_def)
  from last_line_without_newline_counted [OF eof ne, of ?env 0 0] ok
  obtain st where st: "splitFilesForTable ?env ?file 0 0 = Inr st" by blast
  have "splitFilesForTable ?env ?file 0 0
   = Inr \<lparr>s_batchNum = 2, s_numLinesTaken = 3, s_batchWriter = None, s_bytesRead = 0,
          s_submitted =
            [\<lparr>sb_Number = 1, sb_isLastBatch = False, sb_OffsetEnd = 2, sb_ByteCount = 8,
              sb_header = Some ''id,name'', sb_records = [''1,a;'', ''2,b;'']\<rparr>,
             \<lparr>sb_Number = 2, sb_isLastBatch = True, sb_OffsetEnd = 3, sb_ByteCount = 3,
              sb_header = Some ''id,name'', sb_records = [''3,c;'']\<rparr>]\<rparr>"
    by (simp add: splitFilesForTable_def split_iteration_def new_batch_writer_def)
  with st show ?thesis by simp
qed

end
